theory Spec2Isabelle
  imports Complex_Main "HOL-Library.Code_Target_Nat" "HOL-Library.Log_Nat"
begin

section \<open>Strings\<close>

text \<open>
  A Python \<open>str\<close> is modelled as a \<open>string\<close>; every \<open>char\<close> stands for one character
  with code point below 256, so the texts covered are those of the Latin-1 range, which
  holds the Portuguese payslip vocabulary. In that range the decimal digits of the regular
  expression class \<open>\d\<close> and of \<open>float\<close> are the ASCII digits, and the characters for which
  \<open>str.isspace\<close> holds are the ones listed in \<open>is_space\<close>.
\<close>

definition is_digit :: "char \<Rightarrow> bool" where
  "is_digit c = (48 \<le> (of_char c :: nat) \<and> (of_char c :: nat) \<le> 57)"

definition is_space :: "char \<Rightarrow> bool" where
  "is_space c = ((of_char c :: nat) \<in> set [9, 10, 11, 12, 13, 28, 29, 30, 31, 32, 133, 160])"

text \<open>\<open>s.strip()\<close>\<close>

definition strip :: "string \<Rightarrow> string" where
  "strip s = rev (dropWhile is_space (rev (dropWhile is_space s)))"

text \<open>\<open>s.split(sep)\<close> for a one-character separator; \<open>cur\<close> is the segment being read.\<close>

fun split_from :: "char \<Rightarrow> string \<Rightarrow> string \<Rightarrow> string list" where
  "split_from sep cur [] = [rev cur]"
| "split_from sep cur (c # cs) =
     (if c = sep then rev cur # split_from sep [] cs else split_from sep (c # cur) cs)"

definition split :: "string \<Rightarrow> char \<Rightarrow> string list" where
  "split s sep = split_from sep [] s"

text \<open>
  \<open>s.replace(a, b)\<close> for one-character \<open>a\<close> and \<open>b\<close>, \<open>s.replace(a, "")\<close>, and
  \<open>sep.join(segs)\<close>.
\<close>

definition replace :: "string \<Rightarrow> char \<Rightarrow> char \<Rightarrow> string" where
  "replace s a b = map (\<lambda>c. if c = a then b else c) s"

definition remove :: "string \<Rightarrow> char \<Rightarrow> string" where
  "remove s a = filter (\<lambda>c. c \<noteq> a) s"

fun join :: "char \<Rightarrow> string list \<Rightarrow> string" where
  "join sep [] = []"
| "join sep [x] = x"
| "join sep (x # y # ys) = x @ sep # join sep (y # ys)"

section \<open>Errors\<close>

datatype py_error = ValueError | IndexError

text \<open>\<open>xs[i]\<close>: a negative index counts from the end, an index out of range raises.\<close>

definition getitem :: "'a list \<Rightarrow> int \<Rightarrow> py_error + 'a" where
  "getitem xs i =
     (if 0 \<le> i \<and> i < int (length xs) then Inr (xs ! nat i)
      else if i < 0 \<and> - int (length xs) \<le> i then Inr (xs ! nat (int (length xs) + i))
      else Inl IndexError)"

section \<open>The date of a page\<close>

text \<open>
  \<open>re.search(r"\d{2}/\d{4}", text)\<close>: the pattern has a fixed length of seven characters, so
  the search tries each start position from the left and returns the first window that
  fits.
\<close>

definition date_window :: "string \<Rightarrow> bool" where
  "date_window w =
     (case w of
        [a, b, s, c, d, e, f] \<Rightarrow>
          is_digit a \<and> is_digit b \<and> s = CHR ''/'' \<and> is_digit c \<and> is_digit d \<and> is_digit e \<and> is_digit f
      | _ \<Rightarrow> False)"

fun re_search_date :: "string \<Rightarrow> string option" where
  "re_search_date [] = None"
| "re_search_date (c # cs) =
     (if date_window (take 7 (c # cs)) then Some (take 7 (c # cs)) else re_search_date cs)"

text \<open>
  \<open>extrair_data_da_pagina\<close>: \<open>pages\<close> holds what \<open>extract_text()\<close> gives for each page of
  the document (\<open>None\<close> when the page has no text layer).
\<close>

definition extrair_data_da_pagina :: "string option list \<Rightarrow> int \<Rightarrow> py_error + string" where
  "extrair_data_da_pagina pages page_number =
     (if page_number - 1 < int (length pages) then
        (case getitem pages (page_number - 1) of
           Inl e \<Rightarrow> Inl e
         | Inr extracted \<Rightarrow>
             (let text = (case extracted of None \<Rightarrow> [] | Some t \<Rightarrow> t) in
              case re_search_date text of
                Some m \<Rightarrow> Inr m
              | None \<Rightarrow> Inr ''N/D''))
      else Inr ''N/D'')"

section \<open>Multi-line rows\<close>

text \<open>\<open>max\<close> of a sequence of numbers; it raises \<open>ValueError\<close> on an empty one.\<close>

definition py_max :: "nat list \<Rightarrow> py_error + nat" where
  "py_max xs = (case xs of [] \<Rightarrow> Inl ValueError | x # rest \<Rightarrow> Inr (fold max rest x))"

text \<open>
  A data frame of text cells is the list of its rows, each row the list of its cells in
  column order. The body of the outer loop of \<open>_separar_linhas_multiplas\<close> expands one row:
  \<open>col_split\<close> holds the segments of each cell, and \<open>nova_linha\<close> is the \<open>i\<close>-th row built
  from them.
\<close>

definition nova_linha :: "string list list \<Rightarrow> nat \<Rightarrow> string list" where
  "nova_linha col_split i =
     map (\<lambda>partes. if i < length partes then strip (partes ! i) else []) col_split"

definition expandir_linha :: "string list \<Rightarrow> py_error + string list list" where
  "expandir_linha row =
     (let col_split = map (\<lambda>cell. split cell (CHR 0x0A)) row in
      case py_max (map length col_split) of
        Inl e \<Rightarrow> Inl e
      | Inr max_splits \<Rightarrow> Inr (map (nova_linha col_split) [0..<max_splits]))"

fun separar_loop :: "string list list \<Rightarrow> string list list \<Rightarrow> py_error + string list list" where
  "separar_loop [] linhas_expandidas = Inr linhas_expandidas"
| "separar_loop (row # rows) linhas_expandidas =
     (case expandir_linha row of
        Inl e \<Rightarrow> Inl e
      | Inr novas \<Rightarrow> separar_loop rows (linhas_expandidas @ novas))"

definition separar_linhas_multiplas :: "string list list \<Rightarrow> py_error + string list list" where
  "separar_linhas_multiplas df = separar_loop df []"

section \<open>Tables of a payslip\<close>

text \<open>
  A table as the extractor delivers it: its grid of cells and the number of the page it
  was found on. The header marker is the cell text \<open>DESCRI\<close>, C with cedilla, A with tilde,
  \<open>O\<close>, in capitals.
\<close>

record table =
  table_df :: "string list list"
  table_page :: int

definition marcador_cabecalho :: string where
  "marcador_cabecalho = ''DESCRI'' @ [CHR 0xC7, CHR 0xC3] @ ''O''"

definition tem_cabecalho :: "string list \<Rightarrow> bool" where
  "tem_cabecalho row = (marcador_cabecalho \<in> set row)"

text \<open>The index of the first row that holds the marker, and the number of columns.\<close>

definition idx_cab :: "string list list \<Rightarrow> nat" where
  "idx_cab g = length (takeWhile (\<lambda>row. \<not> tem_cabecalho row) g)"

definition shape1 :: "string list list \<Rightarrow> nat" where
  "shape1 g = (case g of [] \<Rightarrow> 0 | row # _ \<Rightarrow> length row)"

text \<open>
  A line of the result, with the four columns kept at the end. The columns are named as
  the later stages name them: \<open>DESCRICAO\<close> is the description column (the source
  writes its name with a cedilla and a tilde, first in lower case and in capitals after
  the caller renames it) and \<open>DESCONTOS\<close> is the column the table reader calls
  \<open>TOTAL\<close>, renamed by the caller before matching.
\<close>

record line_item =
  COD :: string
  DESCRICAO :: string
  DESCONTOS :: string
  DATA :: string

text \<open>
  One expanded row of a six-column table, its columns named by position: description,
  \<open>PVD\<close>, \<open>COD\<close>, \<open>BASE\<close>, \<open>VALOR UNITARIO\<close>, \<open>TOTAL\<close>; with the date of its page.
\<close>

definition linha_dados :: "string \<Rightarrow> string list \<Rightarrow> line_item" where
  "linha_dados data_encontrada linha =
     \<lparr>COD = linha ! 2, DESCRICAO = linha ! 0, DESCONTOS = linha ! 5, DATA = data_encontrada\<rparr>"

text \<open>
  The body of the loop over the tables. Assigning the six column names to a frame with
  another number of columns raises \<open>ValueError\<close> (length mismatch); \<open>continue\<close> and a table
  without the marker leave \<open>dados\<close> as it is.
\<close>

definition processar_tabela ::
  "string option list \<Rightarrow> table \<Rightarrow> line_item list \<Rightarrow> py_error + line_item list" where
  "processar_tabela pages t dados =
     (if list_ex tem_cabecalho (table_df t) then
        (let d = drop (idx_cab (table_df t) + 1) (table_df t) in
         if 6 \<le> shape1 (table_df t) then
           (if shape1 (table_df t) \<noteq> 6 then Inl ValueError
            else
              (case separar_linhas_multiplas d of
                 Inl e \<Rightarrow> Inl e
               | Inr linhas \<Rightarrow>
                   (case extrair_data_da_pagina pages (table_page t) of
                      Inl e \<Rightarrow> Inl e
                    | Inr data_encontrada \<Rightarrow>
                        Inr (dados @ map (linha_dados data_encontrada) linhas))))
         else Inr dados)
      else Inr dados)"

fun processar_tabelas ::
  "string option list \<Rightarrow> table list \<Rightarrow> line_item list \<Rightarrow> py_error + line_item list" where
  "processar_tabelas pages [] dados = Inr dados"
| "processar_tabelas pages (t # ts) dados =
     (case processar_tabela pages t dados of
        Inl e \<Rightarrow> Inl e
      | Inr dados' \<Rightarrow> processar_tabelas pages ts dados')"

text \<open>
  \<open>processar_contracheques_camelot\<close>: any exception is caught, reported, and the function
  returns \<open>None\<close>.
\<close>

definition processar_contracheques_camelot ::
  "string option list \<Rightarrow> table list \<Rightarrow> line_item list option" where
  "processar_contracheques_camelot pages tables =
     (case processar_tabelas pages tables [] of
        Inl e \<Rightarrow> None
      | Inr dados \<Rightarrow> Some dados)"

section \<open>Numbers\<close>

text \<open>
  A Python \<open>float\<close> is an IEEE binary64 value: a finite double, the negative zero, an
  infinity or a not-a-number. \<open>Finite q\<close> holds the exact value of a finite double (the
  positive zero is \<open>Finite 0\<close>); every operation below returns what the double operation
  returns, rounding the exact result to the nearest double, ties to the even significand.
\<close>

datatype pyfloat = Finite rat | NegZero | PosInf | NegInf | NaN

definition round_half_even :: "rat \<Rightarrow> int" where
  "round_half_even x =
     (let f = \<lfloor>x\<rfloor>; d = x - of_int f
      in if d < 1 / 2 then f else if 1 / 2 < d then f + 1 else if even f then f else f + 1)"

text \<open>
  The binary exponent of a positive rational, \<open>2 ^ e \<le> q < 2 ^ (e + 1)\<close>, found from the
  bit lengths of its numerator and denominator.
\<close>

definition expoente :: "rat \<Rightarrow> int" where
  "expoente q =
     (case quotient_of q of
        (a, b) \<Rightarrow> (let k = bitlen a - bitlen b in if 2 powi k \<le> q then k else k - 1))"

text \<open>
  Rounding a non-negative rational to a double. The unit \<open>u\<close> of the binade is
  \<open>2 ^ (e - 52)\<close>, and never below \<open>2 ^ - 1074\<close>, the spacing of the subnormal doubles; the
  result overflows to the infinity when, after rounding, its exponent passes 1023.
\<close>

definition round_pos :: "rat \<Rightarrow> pyfloat" where
  "round_pos q =
     (let e = max (expoente q) (- 1022);
          u = 2 powi (e - 52);
          m = round_half_even (q / u)
      in if 1024 \<le> e \<or> (e = 1023 \<and> 2 ^ 53 \<le> m) then PosInf else Finite (of_int m * u))"

fun fneg :: "pyfloat \<Rightarrow> pyfloat" where
  "fneg (Finite q) = (if q = 0 then NegZero else Finite (- q))"
| "fneg NegZero = Finite 0"
| "fneg PosInf = NegInf"
| "fneg NegInf = PosInf"
| "fneg NaN = NaN"

definition round_double :: "rat \<Rightarrow> pyfloat" where
  "round_double q = (if q < 0 then fneg (round_pos (- q)) else round_pos q)"

text \<open>
  Addition of doubles. An exact sum of zero is the positive zero, except for the sum of
  two negative zeros.
\<close>

fun fadd :: "pyfloat \<Rightarrow> pyfloat \<Rightarrow> pyfloat" where
  "fadd (Finite a) (Finite b) = round_double (a + b)"
| "fadd (Finite a) NegZero = Finite a"
| "fadd NegZero (Finite b) = Finite b"
| "fadd NegZero NegZero = NegZero"
| "fadd NaN _ = NaN"
| "fadd _ NaN = NaN"
| "fadd PosInf NegInf = NaN"
| "fadd NegInf PosInf = NaN"
| "fadd PosInf _ = PosInf"
| "fadd NegInf _ = NegInf"
| "fadd _ PosInf = PosInf"
| "fadd _ NegInf = NegInf"

definition fsub :: "pyfloat \<Rightarrow> pyfloat \<Rightarrow> pyfloat" where
  "fsub a b = fadd a (fneg b)"

text \<open>
  Multiplication by a positive constant that is itself a double, and division by one
  (\<open>2 * x\<close> is \<open>fscale 2 x\<close>, \<open>x / 100\<close> is \<open>fscale (1 / 100) x\<close>).
\<close>

fun fscale :: "rat \<Rightarrow> pyfloat \<Rightarrow> pyfloat" where
  "fscale k (Finite q) = round_double (k * q)"
| "fscale k x = x"

text \<open>The test \<open>x == 0\<close>, and the sign bit that the formats print.\<close>

definition is_zero :: "pyfloat \<Rightarrow> bool" where
  "is_zero x = (x = Finite 0 \<or> x = NegZero)"

fun sign_bit :: "pyfloat \<Rightarrow> bool" where
  "sign_bit (Finite q) = (q < 0)"
| "sign_bit NegZero = True"
| "sign_bit NegInf = True"
| "sign_bit PosInf = False"
| "sign_bit NaN = False"

subsection \<open>\<open>float(s)\<close>\<close>

definition digit_val :: "char \<Rightarrow> nat" where
  "digit_val c = of_char c - 48"

definition digits_val :: "string \<Rightarrow> nat" where
  "digits_val ds = foldl (\<lambda>n c. 10 * n + digit_val c) 0 (filter is_digit ds)"

text \<open>A digit part: digits, with single underscores allowed between two digits.\<close>

fun digitpart :: "string \<Rightarrow> bool" where
  "digitpart [] = False"
| "digitpart [c] = is_digit c"
| "digitpart (c # d # cs) =
     (is_digit c \<and> (if d = CHR ''_'' then digitpart cs else digitpart (d # cs)))"

definition dp_char :: "char \<Rightarrow> bool" where
  "dp_char c = (is_digit c \<or> c = CHR ''_'')"

definition parse_sign :: "string \<Rightarrow> bool \<times> string" where
  "parse_sign s =
     (case s of
        [] \<Rightarrow> (False, [])
      | c # cs \<Rightarrow> if c = CHR ''-'' then (True, cs) else if c = CHR ''+'' then (False, cs) else (False, s))"

definition ascii_lower :: "char \<Rightarrow> char" where
  "ascii_lower c =
     (if 65 \<le> (of_char c :: nat) \<and> (of_char c :: nat) \<le> 90 then char_of ((of_char c :: nat) + 32) else c)"

text \<open>The exponent that may follow the number: nothing, or \<open>e\<close>, an optional sign and a digit part.\<close>

definition parse_exponent :: "string \<Rightarrow> int option" where
  "parse_exponent r =
     (case r of
        [] \<Rightarrow> Some 0
      | c # cs \<Rightarrow>
          if c = CHR ''e'' \<or> c = CHR ''E'' then
            (case parse_sign cs of
               (neg, ds) \<Rightarrow>
                 if digitpart ds then Some (if neg then - int (digits_val ds) else int (digits_val ds))
                 else None)
          else None)"

definition scale10 :: "nat \<Rightarrow> int \<Rightarrow> rat" where
  "scale10 m e = (if 0 \<le> e then of_nat m * 10 ^ nat e else of_nat m / 10 ^ nat (- e))"

text \<open>
  An unsigned number: an integer digit part, then optionally a point and a fraction digit
  part (one of the two parts may be missing next to a point), then the exponent.
\<close>

definition parse_number :: "string \<Rightarrow> rat option" where
  "parse_number r =
     (let ip = takeWhile dp_char r;
          r1 = dropWhile dp_char r;
          has_dot = (case r1 of [] \<Rightarrow> False | c # _ \<Rightarrow> c = CHR ''.'');
          fp = (if has_dot then takeWhile dp_char (tl r1) else []);
          r2 = (if has_dot then dropWhile dp_char (tl r1) else r1);
          number_ok =
            (if has_dot then (ip = [] \<or> digitpart ip) \<and> (fp = [] \<or> digitpart fp) \<and> (ip \<noteq> [] \<or> fp \<noteq> [])
             else digitpart ip)
      in if number_ok then
           (case parse_exponent r2 of
              None \<Rightarrow> None
            | Some e \<Rightarrow> Some (scale10 (digits_val (ip @ fp)) (e - int (length (filter is_digit fp)))))
         else None)"

text \<open>
  \<open>float(s)\<close>; \<open>None\<close> stands for the \<open>ValueError\<close> of a text that is no number. Before
  parsing, \<open>float\<close> drops at both ends the ASCII white space and the two Latin-1 spaces
  (next line and no-break space); the separators 28 to 31, which \<open>str.strip\<close> removes, it
  does not accept. The decimal value is rounded to the nearest double.
\<close>

definition float_space :: "char \<Rightarrow> bool" where
  "float_space c = ((of_char c :: nat) \<in> set [9, 10, 11, 12, 13, 32, 133, 160])"

definition float_strip :: "string \<Rightarrow> string" where
  "float_strip s = rev (dropWhile float_space (rev (dropWhile float_space s)))"

definition py_float :: "string \<Rightarrow> pyfloat option" where
  "py_float s0 =
     (case parse_sign (float_strip s0) of
        (neg, r) \<Rightarrow>
          (let l = map ascii_lower r in
           if l = ''inf'' \<or> l = ''infinity'' then Some (if neg then NegInf else PosInf)
           else if l = ''nan'' then Some NaN
           else
             (case parse_number r of
                None \<Rightarrow> None
              | Some q \<Rightarrow> Some (if neg then fneg (round_pos q) else round_pos q))))"

subsection \<open>The format \<open>{:,.2f}\<close>\<close>

definition digit_char :: "nat \<Rightarrow> char" where
  "digit_char d = char_of (48 + d)"

fun dec :: "nat \<Rightarrow> string" where
  "dec n = (if n < 10 then [digit_char n] else dec (n div 10) @ [digit_char (n mod 10)])"

declare dec.simps [simp del]

text \<open>Digits grouped in threes from the right; the argument of \<open>group3\<close> is reversed.\<close>

fun group3 :: "char \<Rightarrow> string \<Rightarrow> string" where
  "group3 sep (a # b # c # d # rest) = a # b # c # sep # group3 sep (d # rest)"
| "group3 sep ds = ds"

definition thousands :: "char \<Rightarrow> string \<Rightarrow> string" where
  "thousands sep ds = rev (group3 sep (rev ds))"

text \<open>The format writes the exact value of the double, rounded to two decimals.\<close>

definition fmt_2f :: "pyfloat \<Rightarrow> string" where
  "fmt_2f x =
     (case x of
        NaN \<Rightarrow> ''nan''
      | PosInf \<Rightarrow> ''inf''
      | NegInf \<Rightarrow> ''-inf''
      | NegZero \<Rightarrow> ''-0.00''
      | Finite q \<Rightarrow>
          (let cents = nat (round_half_even (\<bar>q\<bar> * 100))
           in (if q < 0 then ''-'' else []) @ thousands (CHR '','') (dec (cents div 100)) @ ''.''
              @ [digit_char (cents mod 100 div 10), digit_char (cents mod 10)]))"

subsection \<open>\<open>formatar_valor_brl\<close>\<close>

definition formatar_valor_brl :: "string \<Rightarrow> string" where
  "formatar_valor_brl valor =
     (case py_float (remove (remove valor (CHR '','')) (CHR ''.'')) of
        None \<Rightarrow> valor
      | Some v \<Rightarrow>
          (let flt = fscale (1 / 100) v
           in replace (replace (replace (fmt_2f flt) (CHR '','') (CHR ''X'')) (CHR ''.'') (CHR '','')) (CHR ''X'') (CHR ''.'')))"

section \<open>Totals of a selection\<close>

text \<open>\<open>_to_float\<close>, the inner function of \<open>inserir_totais_na_coluna\<close>.\<close>

definition to_float :: "string \<Rightarrow> pyfloat" where
  "to_float x =
     (case py_float (strip (replace x (CHR '','') (CHR ''.''))) of
        None \<Rightarrow> Finite 0
      | Some v \<Rightarrow> v)"

text \<open>
  The sum of a column (\<open>Series.sum\<close>) belongs to the data-frame library, which chooses the
  order of the additions; in \<open>inserir_totais_na_coluna\<close> it is the parameter \<open>series_sum\<close>.
  \<open>soma_sequencial\<close> is the reduction that skips the not-a-number entries and adds the
  rest from left to right, starting from zero.
\<close>

definition soma_sequencial :: "pyfloat list \<Rightarrow> pyfloat" where
  "soma_sequencial vs = foldl fadd (Finite 0) (filter (\<lambda>v. v \<noteq> NaN) vs)"

definition marcador_A :: string where
  "marcador_A = ''A = Valor Total (R$)''"

definition marcador_B :: string where
  "marcador_B = ''B = Valor Recebido - Autor (a)''"

definition marcador_indebito :: string where
  "marcador_indebito = ''Ind'' @ [CHR 0xE9] @ ''bito (A-B)''"

definition marcador_dobro :: string where
  "marcador_dobro = ''Ind'' @ [CHR 0xE9] @ ''bito em dobro (R$)''"

definition especiais :: "string list" where
  "especiais = [marcador_A, marcador_B, marcador_indebito, marcador_dobro]"

text \<open>
  Concatenating a one-row frame that has only the amount and the description leaves the
  other cells of the new row missing; a missing cell is written here as the text \<open>nan\<close>.
\<close>

definition linha_total :: "string \<Rightarrow> string \<Rightarrow> line_item" where
  "linha_total valor descricao = \<lparr>COD = ''nan'', DESCRICAO = descricao, DESCONTOS = valor, DATA = ''nan''\<rparr>"

text \<open>Clearing every column but the description and the amount where the mask holds.\<close>

definition limpar_especial :: "line_item \<Rightarrow> line_item" where
  "limpar_especial r = (if DESCRICAO r \<in> set especiais then r\<lparr>COD := [], DATA := []\<rparr> else r)"

text \<open>
  \<open>inserir_totais_na_coluna\<close> on the column \<open>DESCONTOS\<close>; \<open>valor_recebido\<close> is the value the
  state holds under that key, and \<open>series_sum\<close> the library's sum of a column.
\<close>

definition inserir_totais_na_coluna ::
  "(pyfloat list \<Rightarrow> pyfloat) \<Rightarrow> string option \<Rightarrow> line_item list \<Rightarrow> line_item list" where
  "inserir_totais_na_coluna series_sum valor_recebido df =
     (let soma = series_sum (map (\<lambda>r. to_float (DESCONTOS r)) df) in
      if is_zero soma then df
      else
        (let valor_recebido_str =
               (case valor_recebido of None \<Rightarrow> ''0'' | Some v \<Rightarrow> if v = [] then ''0'' else v);
             valor_recebido_num =
               (case py_float (strip (replace valor_recebido_str (CHR '','') (CHR ''.''))) of
                  None \<Rightarrow> Finite 0
                | Some v \<Rightarrow> v);
             indebito = fsub soma valor_recebido_num;
             indebito_dobro = fscale 2 indebito;
             A_str = fmt_2f soma;
             B_str = strip valor_recebido_str;
             indebito_str = fmt_2f indebito;
             indebito_dobro_str = fmt_2f indebito_dobro;
             df_novo = df @ [linha_total A_str marcador_A] @ [linha_total B_str marcador_B]
                       @ [linha_total indebito_str marcador_indebito]
                       @ [linha_total indebito_dobro_str marcador_dobro]
         in map limpar_especial df_novo))"

section \<open>The final report\<close>

text \<open>
  What \<open>PDFFinais.montar_tabela\<close> decides for one row: the font (bold red in size 11 for a
  special row, plain black in size 9 otherwise) and the text of its four cells.
\<close>

datatype estilo = Negrito11Vermelho | Normal9Preto

definition is_especial :: "string \<Rightarrow> bool" where
  "is_especial desc = (desc \<in> set [marcador_A, marcador_B, marcador_indebito, marcador_dobro])"

definition montar_linha :: "line_item \<Rightarrow> estilo \<times> string list" where
  "montar_linha rowv =
     (if is_especial (DESCRICAO rowv) then Negrito11Vermelho else Normal9Preto,
      [COD rowv, DESCRICAO rowv,
       if strip (DESCONTOS rowv) \<noteq> [] then formatar_valor_brl (DESCONTOS rowv) else DESCONTOS rowv,
       DATA rowv])"

section \<open>Matching against the rubrics\<close>

text \<open>
  \<open>process.extractOne\<close> and \<open>fuzz.ratio\<close> belong to the matching library, not to this
  program. \<open>extractOne\<close> is written out with its parameters: the \<open>processor\<close> applied to the
  query and to each choice, the \<open>scorer\<close> (a ratio from 0 to 100) and the \<open>score_cutoff\<close>,
  which is 0 when the caller gives none. The program passes \<open>fuzz.ratio\<close> as the scorer and
  leaves the library's default processor; both stay parameters here.
\<close>

definition extractWithoutOrder ::
  "(string \<Rightarrow> string) \<Rightarrow> (string \<Rightarrow> string \<Rightarrow> nat) \<Rightarrow> nat \<Rightarrow> string \<Rightarrow> string list
     \<Rightarrow> (string \<times> nat) list" where
  "extractWithoutOrder processor scorer score_cutoff query choices =
     filter (\<lambda>(choice, score). score_cutoff \<le> score)
       (map (\<lambda>choice. (choice, scorer (processor query) (processor choice))) choices)"

text \<open>\<open>max(best_list, key=lambda i: i[1])\<close>: the first pair with the greatest score.\<close>

fun max_score :: "(string \<times> nat) \<Rightarrow> (string \<times> nat) list \<Rightarrow> (string \<times> nat)" where
  "max_score best [] = best"
| "max_score best (x # xs) = max_score (if snd best < snd x then x else best) xs"

definition extractOne ::
  "(string \<Rightarrow> string) \<Rightarrow> (string \<Rightarrow> string \<Rightarrow> nat) \<Rightarrow> nat \<Rightarrow> string \<Rightarrow> string list
     \<Rightarrow> (string \<times> nat) option" where
  "extractOne processor scorer score_cutoff query choices =
     (case extractWithoutOrder processor scorer score_cutoff query choices of
        [] \<Rightarrow> None
      | x # xs \<Rightarrow> Some (max_score x xs))"

text \<open>The distinct values of a column, in the order of their first occurrence.\<close>

fun unique :: "string list \<Rightarrow> string list" where
  "unique [] = []"
| "unique (x # xs) = x # filter (\<lambda>y. y \<noteq> x) (unique xs)"

definition cruzar_descontos_com_rubricas ::
  "(string \<Rightarrow> string) \<Rightarrow> (string \<Rightarrow> string \<Rightarrow> nat) \<Rightarrow> line_item list \<Rightarrow> string list \<Rightarrow> int
     \<Rightarrow> line_item list" where
  "cruzar_descontos_com_rubricas processor scorer df_descontos rubricas threshold =
     (if df_descontos = [] \<or> rubricas = [] then []
      else
        (let unique_desc = unique (map DESCRICAO df_descontos);
             mapping =
               map (\<lambda>desc.
                      (desc,
                       case extractOne processor scorer 0 desc rubricas of
                         None \<Rightarrow> False
                       | Some result \<Rightarrow> threshold \<le> int (snd result)))
                 unique_desc
         in filter (\<lambda>r. map_of mapping (DESCRICAO r) = Some True) df_descontos))"

section \<open>Canonical notation\<close>

text \<open>
  The canonical two-decimal notation of a decimal numeral given by the digits \<open>ds\<close> of its
  integer part and its two fraction digits: the integer part without leading zeros (a
  single zero when nothing else is left), grouped in threes by points, then a comma and
  the two fraction digits.
\<close>

definition sem_zeros :: "string \<Rightarrow> string" where
  "sem_zeros ds = (case dropWhile (\<lambda>c. c = CHR ''0'') ds of [] \<Rightarrow> ''0'' | r # rs \<Rightarrow> r # rs)"

text \<open>Grouping by points: the last three digits stay, the digits before them are grouped in turn.\<close>

function agrupar :: "string \<Rightarrow> string" where
  "agrupar ds =
     (if length ds \<le> 3 then ds
      else agrupar (take (length ds - 3) ds) @ CHR ''.'' # drop (length ds - 3) ds)"
  by pat_completeness auto
termination
  by (relation "measure length") auto

declare agrupar.simps [simp del]

definition ptbr_canonico :: "string \<Rightarrow> string \<Rightarrow> string" where
  "ptbr_canonico ds fs = agrupar (sem_zeros ds) @ '','' @ fs"

text \<open>
  The three replacements at the end of \<open>formatar_valor_brl\<close>, as one map over the
  characters: comma to \<open>X\<close>, point to comma, \<open>X\<close> to point.
\<close>

definition troca :: "char \<Rightarrow> char" where
  "troca c =
     (if c = CHR '','' then CHR ''.'' else if c = CHR ''.'' then CHR '','' else if c = CHR ''X'' then CHR ''.''
      else c)"


section \<open>Properties of the date search\<close>

lemma date_window_length: "date_window m \<Longrightarrow> length m = 7"
  by (auto simp: date_window_def split: list.splits)

lemma re_search_date_None:
  "re_search_date t = None \<Longrightarrow> t = pre @ m @ post \<Longrightarrow> \<not> date_window m"
proof (induction t arbitrary: pre)
  case Nil
  then show ?case by (auto simp: date_window_def)
next
  case (Cons c cs)
  from Cons.prems(1) have nw: "\<not> date_window (take 7 (c # cs))" and r: "re_search_date cs = None"
    by (auto split: if_splits)
  show ?case
  proof (cases pre)
    case Nil
    show ?thesis
    proof
      assume dw: "date_window m"
      then have "length m = 7" by (rule date_window_length)
      with Nil Cons.prems(2) have "take 7 (c # cs) = m" by simp
      with nw dw show False by simp
    qed
  next
    case (Cons p ps)
    with Cons.prems(2) have "cs = ps @ m @ post" by simp
    with Cons.IH[OF r] show ?thesis by blast
  qed
qed

lemma re_search_date_Some:
  "re_search_date t = Some m \<Longrightarrow>
     \<exists>pre post. t = pre @ m @ post \<and> date_window m \<and>
       (\<forall>pre' m' post'. t = pre' @ m' @ post' \<and> date_window m' \<longrightarrow> length pre \<le> length pre')"
proof (induction t)
  case Nil
  then show ?case by simp
next
  case (Cons c cs)
  show ?case
  proof (cases "date_window (take 7 (c # cs))")
    case True
    with Cons.prems have m: "m = take 7 (c # cs)" by simp
    define post where "post = drop 7 (c # cs)"
    have "c # cs = take 7 (c # cs) @ drop 7 (c # cs)" by (rule append_take_drop_id[symmetric])
    then have d: "c # cs = [] @ m @ post" unfolding m post_def by simp
    have w: "date_window m" using True m by simp
    have l: "\<forall>pre' m' post'. c # cs = pre' @ m' @ post' \<and> date_window m' \<longrightarrow>
       length ([] :: string) \<le> length pre'" by simp
    from d w l show ?thesis by blast
  next
    case False
    with Cons.prems have "re_search_date cs = Some m" by simp
    from Cons.IH[OF this] obtain pre post where
      d: "cs = pre @ m @ post" and w: "date_window m" and
      l: "\<forall>pre' m' post'. cs = pre' @ m' @ post' \<and> date_window m' \<longrightarrow> length pre \<le> length pre'"
      by blast
    have "\<forall>pre' m' post'. c # cs = pre' @ m' @ post' \<and> date_window m' \<longrightarrow> length (c # pre) \<le> length pre'"
    proof (intro allI impI)
      fix pre' m' post'
      assume a: "c # cs = pre' @ m' @ post' \<and> date_window m'"
      show "length (c # pre) \<le> length pre'"
      proof (cases pre')
        case Nil
        from a have "length m' = 7" by (simp add: date_window_length)
        with a Nil have "take 7 (c # cs) = m'" by simp
        with a False show ?thesis by simp
      next
        case (Cons p ps)
        with a have "cs = ps @ m' @ post'" by simp
        with l a have "length pre \<le> length ps" by blast
        with Cons show ?thesis by simp
      qed
    qed
    moreover have "c # cs = (c # pre) @ m @ post" using d by simp
    ultimately show ?thesis using w by blast
  qed
qed

text \<open>
  Claim C9. For a page of the document, \<open>extrair_data_da_pagina\<close> returns the first
  (leftmost) substring of the page text made of two digits, a slash and four digits, and
  returns the sentinel \<open>N/D\<close> when the text has no such substring.
\<close>

theorem extrair_data_da_pagina_first_match:
  assumes "1 \<le> n" and "n \<le> int (length pages)"
    and "text = (case pages ! nat (n - 1) of None \<Rightarrow> [] | Some t \<Rightarrow> t)"
  shows "(\<exists>pre m post. text = pre @ m @ post \<and> date_window m \<and>
            (\<forall>pre' m' post'. text = pre' @ m' @ post' \<and> date_window m' \<longrightarrow>
               length pre \<le> length pre') \<and>
            extrair_data_da_pagina pages n = Inr m)
         \<or> ((\<forall>pre m post. text = pre @ m @ post \<longrightarrow> \<not> date_window m) \<and>
            extrair_data_da_pagina pages n = Inr ''N/D'')"
proof -
  from assms(1,2) have g: "getitem pages (n - 1) = Inr (pages ! nat (n - 1))"
    by (simp add: getitem_def)
  show ?thesis
  proof (cases "re_search_date text")
    case None
    then have "extrair_data_da_pagina pages n = Inr ''N/D''"
      using assms g by (simp add: extrair_data_da_pagina_def)
    moreover have "\<forall>pre m post. text = pre @ m @ post \<longrightarrow> \<not> date_window m"
      using re_search_date_None[OF None] by blast
    ultimately show ?thesis by blast
  next
    case (Some m)
    then have "extrair_data_da_pagina pages n = Inr m"
      using assms g by (simp add: extrair_data_da_pagina_def)
    with re_search_date_Some[OF Some] show ?thesis by blast
  qed
qed

theorem extrair_data_da_pagina_first_match_witness:
  "(1 :: int) \<le> 1 \<and> 1 \<le> int (length [Some ''Ref 123/45678 e 01/2020''])
   \<and> ((\<exists>pre m post. ''Ref 123/45678 e 01/2020'' = pre @ m @ post \<and> date_window m \<and>
            (\<forall>pre' m' post'. ''Ref 123/45678 e 01/2020'' = pre' @ m' @ post' \<and> date_window m' \<longrightarrow>
               length pre \<le> length pre') \<and>
            extrair_data_da_pagina [Some ''Ref 123/45678 e 01/2020''] 1 = Inr m)
         \<or> ((\<forall>pre m post. ''Ref 123/45678 e 01/2020'' = pre @ m @ post \<longrightarrow> \<not> date_window m) \<and>
            extrair_data_da_pagina [Some ''Ref 123/45678 e 01/2020''] 1 = Inr ''N/D''))
   \<and> extrair_data_da_pagina [Some ''Ref 123/45678 e 01/2020''] 1 = Inr ''23/4567''"
proof -
  have e: "extrair_data_da_pagina [Some ''Ref 123/45678 e 01/2020''] 1 = Inr ''23/4567''"
    by code_simp
  have h1: "(1 :: int) \<le> 1" by simp
  have h2: "(1 :: int) \<le> int (length [Some ''Ref 123/45678 e 01/2020''])" by simp
  have h3: "''Ref 123/45678 e 01/2020'' =
    (case [Some ''Ref 123/45678 e 01/2020''] ! nat (1 - 1) of None \<Rightarrow> [] | Some t \<Rightarrow> t)" by simp
  from extrair_data_da_pagina_first_match[OF h1 h2 h3] h1 h2 e show ?thesis by blast
qed

section \<open>Properties of the rubric matcher\<close>

lemma set_unique: "set (unique xs) = set xs"
  by (induction xs) auto

lemma snd_max_score: "snd (max_score b xs) = fold max (map snd xs) (snd b)"
  by (induction xs arbitrary: b) (auto simp: max_def)

lemma extractWithoutOrder_cutoff_0:
  "extractWithoutOrder processor scorer 0 query choices =
     map (\<lambda>choice. (choice, scorer (processor query) (processor choice))) choices"
  by (simp add: extractWithoutOrder_def case_prod_unfold)

lemma extractOne_best:
  assumes "rubricas \<noteq> []"
  shows "\<exists>c. extractOne processor scorer 0 desc rubricas =
           Some (c, Max ((\<lambda>c. scorer (processor desc) (processor c)) ` set rubricas))"
proof -
  from assms obtain x xs where r: "rubricas = x # xs" by (cases rubricas) auto
  let ?f = "\<lambda>c. scorer (processor desc) (processor c)"
  have "snd (max_score (x, ?f x) (map (\<lambda>c. (c, ?f c)) xs)) = fold max (map ?f xs) (?f x)"
    by (simp add: snd_max_score comp_def)
  also have "\<dots> = Max (set (?f x # map ?f xs))"
    by (simp only: Max.set_eq_fold)
  also have "\<dots> = Max (?f ` set rubricas)" by (simp add: r)
  finally have "snd (max_score (x, ?f x) (map (\<lambda>c. (c, ?f c)) xs)) = Max (?f ` set rubricas)" .
  then show ?thesis
    by (simp add: extractOne_def extractWithoutOrder_cutoff_0 r) (metis prod.collapse)
qed

lemma map_of_mapping:
  "d \<in> set ds \<Longrightarrow> map_of (map (\<lambda>k. (k, f k)) ds) d = Some (f d)"
  by (induction ds) auto

lemma cruzar_filter:
  assumes "rubricas \<noteq> []"
  shows "cruzar_descontos_com_rubricas processor scorer df rubricas T =
    filter (\<lambda>r. T \<le> int (Max ((\<lambda>c. scorer (processor (DESCRICAO r)) (processor c)) ` set rubricas))) df"
proof (cases "df = []")
  case True
  then show ?thesis by (simp add: cruzar_descontos_com_rubricas_def)
next
  case False
  let ?acc = "\<lambda>desc. case extractOne processor scorer 0 desc rubricas of
                         None \<Rightarrow> False
                       | Some result \<Rightarrow> T \<le> int (snd result)"
  have acc: "?acc d = (T \<le> int (Max ((\<lambda>c. scorer (processor d) (processor c)) ` set rubricas)))" for d
    using extractOne_best[OF assms, of processor scorer d] by auto
  have "filter (\<lambda>r. map_of (map (\<lambda>desc. (desc, ?acc desc)) (unique (map DESCRICAO df))) (DESCRICAO r) = Some True) df
      = filter (\<lambda>r. ?acc (DESCRICAO r)) df"
  proof (rule filter_cong[OF refl])
    fix r assume "r \<in> set df"
    then have "DESCRICAO r \<in> set (unique (map DESCRICAO df))" by (simp add: set_unique)
    from map_of_mapping[OF this, of ?acc]
    show "(map_of (map (\<lambda>desc. (desc, ?acc desc)) (unique (map DESCRICAO df))) (DESCRICAO r) = Some True)
       = ?acc (DESCRICAO r)" by simp
  qed
  then show ?thesis
    using False assms by (simp add: cruzar_descontos_com_rubricas_def Let_def acc)
qed

text \<open>
  Claim C6. With a non-empty vocabulary, a row is kept exactly when the best score of its
  description over all vocabulary entries reaches the threshold; rows that share a
  description are kept or dropped together; and when the scorer gives 100 on equal texts,
  a description equal to a vocabulary entry is kept for every threshold up to 100.
\<close>

theorem cruzar_descontos_best_score_threshold:
  assumes "rubricas \<noteq> []"
  shows "cruzar_descontos_com_rubricas processor scorer df rubricas T =
           filter (\<lambda>r. T \<le> int (Max ((\<lambda>c. scorer (processor (DESCRICAO r)) (processor c)) ` set rubricas))) df
     \<and> (\<forall>r1 r2. r1 \<in> set df \<and> r2 \<in> set df \<and> DESCRICAO r1 = DESCRICAO r2 \<longrightarrow>
           (r1 \<in> set (cruzar_descontos_com_rubricas processor scorer df rubricas T)
            \<longleftrightarrow> r2 \<in> set (cruzar_descontos_com_rubricas processor scorer df rubricas T)))
     \<and> ((\<forall>s. scorer s s = 100) \<and> T \<le> 100 \<longrightarrow>
           (\<forall>r \<in> set df. DESCRICAO r \<in> set rubricas \<longrightarrow>
              r \<in> set (cruzar_descontos_com_rubricas processor scorer df rubricas T)))"
proof (intro conjI allI impI ballI)
  show f: "cruzar_descontos_com_rubricas processor scorer df rubricas T =
      filter (\<lambda>r. T \<le> int (Max ((\<lambda>c. scorer (processor (DESCRICAO r)) (processor c)) ` set rubricas))) df"
    by (rule cruzar_filter[OF assms])
  show "r1 \<in> set (cruzar_descontos_com_rubricas processor scorer df rubricas T)
          \<longleftrightarrow> r2 \<in> set (cruzar_descontos_com_rubricas processor scorer df rubricas T)"
    if "r1 \<in> set df \<and> r2 \<in> set df \<and> DESCRICAO r1 = DESCRICAO r2" for r1 r2
    using that by (simp add: f)
  show "r \<in> set (cruzar_descontos_com_rubricas processor scorer df rubricas T)"
    if h: "(\<forall>s. scorer s s = 100) \<and> T \<le> 100" and r: "r \<in> set df" and v: "DESCRICAO r \<in> set rubricas" for r
  proof -
    let ?S = "(\<lambda>c. scorer (processor (DESCRICAO r)) (processor c)) ` set rubricas"
    from h v have "100 \<in> ?S" by (metis (mono_tags, lifting) image_eqI)
    then have "100 \<le> Max ?S" by (simp add: Max_ge)
    with h have "T \<le> int (Max ?S)" by linarith
    with r show ?thesis by (simp add: f)
  qed
qed

theorem cruzar_descontos_best_score_threshold_witness:
  "[''PLANO SAUDE'', ''EMPRESTIMO''] \<noteq> []
   \<and> cruzar_descontos_com_rubricas (map ascii_lower) (\<lambda>a b. if a = b then 100 else 40)
        [\<lparr>COD = ''101'', DESCRICAO = ''SEGURO'', DESCONTOS = ''10,00'', DATA = ''01/2020''\<rparr>,
         \<lparr>COD = ''102'', DESCRICAO = ''EMPRESTIMO'', DESCONTOS = ''20,00'', DATA = ''01/2020''\<rparr>]
        [''PLANO SAUDE'', ''EMPRESTIMO''] 85
     = [\<lparr>COD = ''102'', DESCRICAO = ''EMPRESTIMO'', DESCONTOS = ''20,00'', DATA = ''01/2020''\<rparr>]"
  using cruzar_descontos_best_score_threshold[of "[''PLANO SAUDE'', ''EMPRESTIMO'']" "map ascii_lower"
      "\<lambda>a b. if a = b then 100 else 40"
      "[\<lparr>COD = ''101'', DESCRICAO = ''SEGURO'', DESCONTOS = ''10,00'', DATA = ''01/2020''\<rparr>,
        \<lparr>COD = ''102'', DESCRICAO = ''EMPRESTIMO'', DESCONTOS = ''20,00'', DATA = ''01/2020''\<rparr>]" 85]
  by (simp add: ascii_lower_def)

text \<open>
  Claim C7. An empty collection of line items or an empty vocabulary gives the empty result,
  for every threshold; the guard returns before anything else is computed, so no error can
  arise.
\<close>

theorem cruzar_descontos_degenerate_empty:
  "df = [] \<or> rubricas = [] \<Longrightarrow>
     cruzar_descontos_com_rubricas processor scorer df rubricas T = []"
  by (simp add: cruzar_descontos_com_rubricas_def)

theorem cruzar_descontos_degenerate_empty_witness:
  "cruzar_descontos_com_rubricas (map ascii_lower) (\<lambda>a b. if a = b then 100 else 40)
      [] [''EMPRESTIMO''] 85 = []
   \<and> cruzar_descontos_com_rubricas (map ascii_lower) (\<lambda>a b. if a = b then 100 else 40)
      [\<lparr>COD = ''102'', DESCRICAO = ''EMPRESTIMO'', DESCONTOS = ''20,00'', DATA = ''01/2020''\<rparr>] [] 0 = []"
  using cruzar_descontos_degenerate_empty[of "[]" "[''EMPRESTIMO'']" "map ascii_lower"
          "\<lambda>a b. if a = b then 100 else 40" 85]
        cruzar_descontos_degenerate_empty[of
          "[\<lparr>COD = ''102'', DESCRICAO = ''EMPRESTIMO'', DESCONTOS = ''20,00'', DATA = ''01/2020''\<rparr>]"
          "[]" "map ascii_lower" "\<lambda>a b. if a = b then 100 else 40" 0]
  by simp

section \<open>Properties of the multi-line expansion\<close>

lemma py_max_nonempty: "xs \<noteq> [] \<Longrightarrow> py_max xs = Inr (Max (set xs))"
proof (cases xs)
  case Nil
  assume "xs \<noteq> []"
  with Nil show ?thesis by simp
next
  case (Cons x rest)
  have "fold max rest x = Max (set (x # rest))" by (simp only: Max.set_eq_fold)
  with Cons show ?thesis by (simp add: py_max_def)
qed

lemma expandir_linha_nonempty:
  assumes "row \<noteq> []"
  shows "expandir_linha row =
     Inr (map (\<lambda>i. map (\<lambda>cell. if i < length (split cell (CHR 0x0A))
                                then strip (split cell (CHR 0x0A) ! i) else []) row)
            [0..<Max (set (map (\<lambda>cell. length (split cell (CHR 0x0A))) row))])"
  using assms
  by (simp add: expandir_linha_def Let_def py_max_nonempty nova_linha_def comp_def)

lemma separar_loop_nonempty:
  assumes "\<forall>row \<in> set g. row \<noteq> []"
  shows "separar_loop g acc =
     Inr (acc @ concat (map (\<lambda>row. map (\<lambda>i. map (\<lambda>cell. if i < length (split cell (CHR 0x0A))
                                then strip (split cell (CHR 0x0A) ! i) else []) row)
            [0..<Max (set (map (\<lambda>cell. length (split cell (CHR 0x0A))) row))]) g))"
  using assms
proof (induction g arbitrary: acc)
  case Nil
  then show ?case by simp
next
  case (Cons row g)
  from Cons.prems have "row \<noteq> []" and "\<forall>row \<in> set g. row \<noteq> []" by simp_all
  then show ?case
    by (simp add: expandir_linha_nonempty Cons.IH)
qed

text \<open>
  Claim C4. The rows of the result are, for each data row in order, exactly \<open>k\<close> rows,
  \<open>k\<close> being the greatest number of line-break-separated segments among the cells of that
  row; the \<open>i\<close>-th of them holds, column by column, the \<open>i\<close>-th segment of the cell
  trimmed, or the empty text when the cell has no \<open>i\<close>-th segment.
\<close>

theorem separar_linhas_multiplas_expansion:
  assumes "\<forall>row \<in> set g. row \<noteq> []"
  shows "separar_linhas_multiplas g =
     Inr (concat (map (\<lambda>row.
            map (\<lambda>i. map (\<lambda>cell. if i < length (split cell (CHR 0x0A))
                                   then strip (split cell (CHR 0x0A) ! i) else []) row)
              [0..<Max (set (map (\<lambda>cell. length (split cell (CHR 0x0A))) row))]) g))"
  unfolding separar_linhas_multiplas_def separar_loop_nonempty[OF assms] by simp

theorem separar_linhas_multiplas_expansion_witness:
  "separar_linhas_multiplas [[''A'' @ [CHR 0x0A] @ ''B'', ''1'' @ [CHR 0x0A] @ ''2'']]
     = Inr [[''A'', ''1''], [''B'', ''2'']]"
proof -
  let ?g = "[[''A'' @ [CHR 0x0A] @ ''B'', ''1'' @ [CHR 0x0A] @ ''2'']]"
  have h: "\<forall>row \<in> set ?g. row \<noteq> []" by simp
  have e: "concat (map (\<lambda>row.
            map (\<lambda>i. map (\<lambda>cell. if i < length (split cell (CHR 0x0A))
                                   then strip (split cell (CHR 0x0A) ! i) else []) row)
              [0..<Max (set (map (\<lambda>cell. length (split cell (CHR 0x0A))) row))]) ?g)
        = [[''A'', ''1''], [''B'', ''2'']]"
    by code_simp
  from separar_linhas_multiplas_expansion[OF h] show ?thesis unfolding e .
qed

section \<open>Properties of the table reader\<close>

lemma list_ex_tem_cabecalho:
  "list_ex tem_cabecalho g \<longleftrightarrow> (\<exists>row \<in> set g. marcador_cabecalho \<in> set row)"
  by (simp add: list_ex_iff tem_cabecalho_def)

lemma idx_cab_first:
  assumes "\<forall>row \<in> set acima. marcador_cabecalho \<notin> set row" and "marcador_cabecalho \<in> set cab"
  shows "idx_cab (acima @ cab # abaixo) = length acima"
proof -
  have "takeWhile (\<lambda>row. \<not> tem_cabecalho row) (acima @ cab # abaixo)
          = acima @ takeWhile (\<lambda>row. \<not> tem_cabecalho row) (cab # abaixo)"
    using assms(1) by (intro takeWhile_append2) (simp add: tem_cabecalho_def)
  also have "\<dots> = acima" using assms(2) by (simp add: tem_cabecalho_def)
  finally show ?thesis by (simp add: idx_cab_def)
qed

lemma shape1_six:
  assumes "length cab = 6" and "\<forall>row \<in> set (acima @ abaixo). length row = 6"
  shows "shape1 (acima @ cab # abaixo) = 6"
  using assms by (cases acima) (simp_all add: shape1_def)

lemma extrair_data_da_pagina_returns:
  assumes "1 \<le> p" and "p \<le> int (length pages)"
  shows "\<exists>d. extrair_data_da_pagina pages p = Inr d"
proof -
  from assms have g: "getitem pages (p - 1) = Inr (pages ! nat (p - 1))" by (simp add: getitem_def)
  show ?thesis
  proof (cases "re_search_date (case pages ! nat (p - 1) of None \<Rightarrow> [] | Some t \<Rightarrow> t)")
    case None
    with assms g show ?thesis by (simp add: extrair_data_da_pagina_def)
  next
    case (Some m)
    with assms g show ?thesis by (simp add: extrair_data_da_pagina_def)
  qed
qed

text \<open>
  Claim C8. A table in which no cell equals the header marker adds nothing to the result
  and raises nothing: the tables after it are processed as if it were absent. In a
  six-column table the header is the first row that has a cell equal to the marker; that
  row and the rows before it are dropped, and the items of the table come from the rows
  after it alone.
\<close>

theorem processar_tabela_header_row:
  "((\<forall>row \<in> set g. \<forall>cell \<in> set row. cell \<noteq> marcador_cabecalho) \<longrightarrow>
       processar_tabela pages \<lparr>table_df = g, table_page = p\<rparr> dados = Inr dados
     \<and> processar_tabelas pages (\<lparr>table_df = g, table_page = p\<rparr> # ts) dados
         = processar_tabelas pages ts dados
     \<and> processar_contracheques_camelot pages [\<lparr>table_df = g, table_page = p\<rparr>] = Some [])
   \<and> ((\<forall>row \<in> set acima. \<forall>cell \<in> set row. cell \<noteq> marcador_cabecalho)
        \<and> marcador_cabecalho \<in> set cab \<and> length cab = 6
        \<and> (\<forall>row \<in> set (acima @ abaixo). length row = 6)
        \<and> 1 \<le> p \<and> p \<le> int (length pages) \<longrightarrow>
       (\<exists>linhas data_encontrada.
          separar_linhas_multiplas abaixo = Inr linhas
        \<and> extrair_data_da_pagina pages p = Inr data_encontrada
        \<and> processar_tabela pages \<lparr>table_df = acima @ cab # abaixo, table_page = p\<rparr> dados
            = Inr (dados @ map (linha_dados data_encontrada) linhas)))"
proof (intro conjI impI)
  assume a: "\<forall>row \<in> set g. \<forall>cell \<in> set row. cell \<noteq> marcador_cabecalho"
  then have n: "\<not> list_ex tem_cabecalho g" unfolding list_ex_tem_cabecalho by blast
  then show one: "processar_tabela pages \<lparr>table_df = g, table_page = p\<rparr> dados = Inr dados"
    by (simp add: processar_tabela_def)
  from n show "processar_tabelas pages (\<lparr>table_df = g, table_page = p\<rparr> # ts) dados
         = processar_tabelas pages ts dados"
    by (simp add: processar_tabela_def)
  from n show "processar_contracheques_camelot pages [\<lparr>table_df = g, table_page = p\<rparr>] = Some []"
    by (simp add: processar_contracheques_camelot_def processar_tabela_def)
next
  assume a: "(\<forall>row \<in> set acima. \<forall>cell \<in> set row. cell \<noteq> marcador_cabecalho)
        \<and> marcador_cabecalho \<in> set cab \<and> length cab = 6
        \<and> (\<forall>row \<in> set (acima @ abaixo). length row = 6)
        \<and> 1 \<le> p \<and> p \<le> int (length pages)"
  let ?g = "acima @ cab # abaixo"
  from a have no: "\<forall>row \<in> set acima. marcador_cabecalho \<notin> set row" by blast
  from a have ex: "list_ex tem_cabecalho ?g" unfolding list_ex_tem_cabecalho by auto
  from a no have idx: "idx_cab ?g = length acima" by (simp add: idx_cab_first)
  from a have sh: "shape1 ?g = 6" by (intro shape1_six) simp_all
  have ne: "\<forall>row \<in> set abaixo. row \<noteq> []"
  proof
    fix row assume "row \<in> set abaixo"
    with a have "length row = 6" by simp
    then show "row \<noteq> []" by auto
  qed
  from separar_loop_nonempty[OF ne, of "[]"] obtain linhas where
    l: "separar_linhas_multiplas abaixo = Inr linhas"
    by (simp add: separar_linhas_multiplas_def)
  from a obtain d where d: "extrair_data_da_pagina pages p = Inr d"
    using extrair_data_da_pagina_returns[of p pages] by blast
  have "processar_tabela pages \<lparr>table_df = ?g, table_page = p\<rparr> dados
            = Inr (dados @ map (linha_dados d) linhas)"
    using ex idx sh l d by (simp add: processar_tabela_def)
  with l d show "\<exists>linhas data_encontrada.
          separar_linhas_multiplas abaixo = Inr linhas
        \<and> extrair_data_da_pagina pages p = Inr data_encontrada
        \<and> processar_tabela pages \<lparr>table_df = acima @ cab # abaixo, table_page = p\<rparr> dados
            = Inr (dados @ map (linha_dados data_encontrada) linhas)" by blast
qed

theorem processar_tabela_header_row_witness:
  "processar_contracheques_camelot [Some ''Folha 03/2021'']
      [\<lparr>table_df = [[''DESCRICAO'', ''descri'' @ [CHR 0xE7, CHR 0xE3] @ ''o''], [marcador_cabecalho @ '' '', ''014.642-0'']], table_page = 1\<rparr>] = Some []
   \<and> processar_tabela [Some ''Folha 03/2021'']
      \<lparr>table_df = [[''GOVERNO'', [], [], [], [], []]]
                   @ [marcador_cabecalho, ''PVD'', ''COD'', ''BASE'', ''VALOR'', ''TOTAL'']
                   # [[''EMPRESTIMO'', ''D'', ''101'', [], ''10,00'', ''10,00'']],
       table_page = 1\<rparr> []
     = Inr [\<lparr>COD = ''101'', DESCRICAO = ''EMPRESTIMO'', DESCONTOS = ''10,00'', DATA = ''03/2021''\<rparr>]"
proof -
  let ?pages = "[Some ''Folha 03/2021'']"
  let ?g = "[[''DESCRICAO'', ''descri'' @ [CHR 0xE7, CHR 0xE3] @ ''o''], [marcador_cabecalho @ '' '', ''014.642-0'']]"
  let ?acima = "[[''GOVERNO'', [], [], [], [], []]]"
  let ?cab = "[marcador_cabecalho, ''PVD'', ''COD'', ''BASE'', ''VALOR'', ''TOTAL'']"
  let ?abaixo = "[[''EMPRESTIMO'', ''D'', ''101'', [], ''10,00'', ''10,00'']]"
  have h1: "\<forall>row \<in> set ?g. \<forall>cell \<in> set row. cell \<noteq> marcador_cabecalho"
    by (simp add: marcador_cabecalho_def)
  have h2: "(\<forall>row \<in> set ?acima. \<forall>cell \<in> set row. cell \<noteq> marcador_cabecalho)
        \<and> marcador_cabecalho \<in> set ?cab \<and> length ?cab = 6
        \<and> (\<forall>row \<in> set (?acima @ ?abaixo). length row = 6)
        \<and> (1 :: int) \<le> 1 \<and> 1 \<le> int (length ?pages)"
    by (simp add: marcador_cabecalho_def)
  have e1: "separar_linhas_multiplas ?abaixo = Inr [[''EMPRESTIMO'', ''D'', ''101'', [], ''10,00'', ''10,00'']]"
    by code_simp
  have e2: "extrair_data_da_pagina ?pages 1 = Inr ''03/2021''" by code_simp
  note t = processar_tabela_header_row[of ?g ?pages 1 "[]" "[]" ?acima ?cab ?abaixo]
  from t h1 have a: "processar_contracheques_camelot ?pages [\<lparr>table_df = ?g, table_page = 1\<rparr>] = Some []"
    by blast
  from t h2 obtain linhas d where
    "separar_linhas_multiplas ?abaixo = Inr linhas" and "extrair_data_da_pagina ?pages 1 = Inr d"
    and r: "processar_tabela ?pages \<lparr>table_df = ?acima @ ?cab # ?abaixo, table_page = 1\<rparr> []
            = Inr ([] @ map (linha_dados d) linhas)"
    by blast
  with e1 e2 have "linhas = [[''EMPRESTIMO'', ''D'', ''101'', [], ''10,00'', ''10,00'']]" and "d = ''03/2021''"
    by simp_all
  with r have b: "processar_tabela ?pages \<lparr>table_df = ?acima @ ?cab # ?abaixo, table_page = 1\<rparr> []
     = Inr [\<lparr>COD = ''101'', DESCRICAO = ''EMPRESTIMO'', DESCONTOS = ''10,00'', DATA = ''03/2021''\<rparr>]"
    by (simp add: linha_dados_def)
  from a b show ?thesis by blast
qed

text \<open>
  Claim C5, at the input where the code departs from it. A table whose header row is found
  and that has seven columns passes the test for at least six columns; naming its columns
  with the six names then raises, the handler around the whole loop catches the error, and
  the function returns \<open>None\<close> for the document instead of the items of the table.
\<close>

theorem processar_contracheques_seven_columns:
  "processar_contracheques_camelot [Some ''Folha 03/2021'']
      [\<lparr>table_df = [[marcador_cabecalho, ''PVD'', ''COD'', ''BASE'', ''VALOR'', ''TOTAL'', ''OBS''],
                    [''EMPRESTIMO'', ''D'', ''101'', [], ''10,00'', ''10,00'', []]],
        table_page = 1\<rparr>] = None"
  by code_simp

section \<open>Properties of the totals\<close>

lemma limpar_linha_total:
  "d \<in> set especiais \<Longrightarrow>
     limpar_especial (linha_total v d) = \<lparr>COD = [], DESCRICAO = d, DESCONTOS = v, DATA = []\<rparr>"
  by (simp add: limpar_especial_def linha_total_def)

lemma marcadores_especiais:
  "marcador_A \<in> set especiais" "marcador_B \<in> set especiais"
  "marcador_indebito \<in> set especiais" "marcador_dobro \<in> set especiais"
  by (simp_all add: especiais_def)

lemma inserir_totais_nonzero:
  assumes "\<not> is_zero (series_sum (map (\<lambda>r. to_float (DESCONTOS r)) df))"
  shows "inserir_totais_na_coluna series_sum vr df =
     map limpar_especial df @
       [\<lparr>COD = [], DESCRICAO = marcador_A,
          DESCONTOS = fmt_2f (series_sum (map (\<lambda>r. to_float (DESCONTOS r)) df)), DATA = []\<rparr>,
        \<lparr>COD = [], DESCRICAO = marcador_B,
          DESCONTOS = strip (case vr of None \<Rightarrow> ''0'' | Some v \<Rightarrow> if v = [] then ''0'' else v), DATA = []\<rparr>,
        \<lparr>COD = [], DESCRICAO = marcador_indebito,
          DESCONTOS = fmt_2f (fsub (series_sum (map (\<lambda>r. to_float (DESCONTOS r)) df))
                        (to_float (case vr of None \<Rightarrow> ''0'' | Some v \<Rightarrow> if v = [] then ''0'' else v))),
          DATA = []\<rparr>,
        \<lparr>COD = [], DESCRICAO = marcador_dobro,
          DESCONTOS = fmt_2f (fscale 2 (fsub (series_sum (map (\<lambda>r. to_float (DESCONTOS r)) df))
                        (to_float (case vr of None \<Rightarrow> ''0'' | Some v \<Rightarrow> if v = [] then ''0'' else v)))),
          DATA = []\<rparr>]"
  using assms
  by (simp add: inserir_totais_na_coluna_def Let_def limpar_linha_total marcadores_especiais to_float_def)

lemma round_half_even_nonneg: "0 \<le> y \<Longrightarrow> 0 \<le> round_half_even y"
  by (simp add: round_half_even_def Let_def)

lemma round_pos_sign: "0 \<le> q \<Longrightarrow> round_pos q = PosInf \<or> (\<exists>x. 0 \<le> x \<and> round_pos q = Finite x)"
proof -
  assume q: "0 \<le> q"
  define u :: rat where "u = 2 powi (max (expoente q) (- 1022) - 52)"
  have u: "0 < u" unfolding u_def by (simp add: zero_less_power_int)
  with q have "0 \<le> q / u" by simp
  then have "0 \<le> round_half_even (q / u)" by (rule round_half_even_nonneg)
  with u have "0 \<le> rat_of_int (round_half_even (q / u)) * u" by simp
  then show ?thesis unfolding round_pos_def Let_def u_def[symmetric] by auto
qed

lemma sign_bit_round_double: "q < 0 \<Longrightarrow> sign_bit (round_double q)"
proof -
  assume q: "q < 0"
  then have "0 \<le> - q" by simp
  from round_pos_sign[OF this] q show ?thesis
    by (auto simp: round_double_def)
qed

lemma sign_bit_fscale: "0 < k \<Longrightarrow> sign_bit x \<Longrightarrow> sign_bit (fscale k x)"
  by (cases x) (simp_all add: sign_bit_round_double mult_pos_neg)

lemma fmt_2f_sign_bit: "sign_bit x \<Longrightarrow> \<exists>rest. fmt_2f x = CHR ''-'' # rest"
  by (cases x) (simp_all add: fmt_2f_def Let_def)

text \<open>
  Claim C2. When the sum \<open>A\<close> of the parsed totals is not zero, the result is the input
  rows followed by exactly four rows, in the order total \<open>A\<close>, received amount \<open>B\<close>,
  overpayment, doubled overpayment. The overpayment row carries the formatted difference
  of the doubles \<open>A\<close> and \<open>B\<close> and the doubled row the formatted double of that difference.
  Nothing is clamped at zero: a difference with its sign bit set, however small, shows its
  minus sign in both rows. The code and date cells of the four rows are blank.
\<close>

theorem inserir_totais_four_summary_rows:
  assumes "series_sum (map (\<lambda>r. to_float (DESCONTOS r)) df) = A" and "\<not> is_zero A"
    and "vstr = (case vr of None \<Rightarrow> ''0'' | Some v \<Rightarrow> if v = [] then ''0'' else v)"
    and "B = to_float vstr"
  shows "inserir_totais_na_coluna series_sum vr df =
      map limpar_especial df @
       [\<lparr>COD = [], DESCRICAO = marcador_A, DESCONTOS = fmt_2f A, DATA = []\<rparr>,
        \<lparr>COD = [], DESCRICAO = marcador_B, DESCONTOS = strip vstr, DATA = []\<rparr>,
        \<lparr>COD = [], DESCRICAO = marcador_indebito, DESCONTOS = fmt_2f (fsub A B), DATA = []\<rparr>,
        \<lparr>COD = [], DESCRICAO = marcador_dobro, DESCONTOS = fmt_2f (fscale 2 (fsub A B)), DATA = []\<rparr>]
    \<and> length (inserir_totais_na_coluna series_sum vr df) = length df + 4
    \<and> (\<forall>a b. A = Finite a \<and> B = Finite b \<longrightarrow>
          fsub A B = (if b = 0 then Finite a else round_double (a - b)))
    \<and> (\<forall>d. fsub A B = Finite d \<longrightarrow> fscale 2 (fsub A B) = round_double (2 * d))
    \<and> (sign_bit (fsub A B) \<longrightarrow>
          (\<exists>rest. fmt_2f (fsub A B) = CHR ''-'' # rest)
        \<and> (\<exists>rest. fmt_2f (fscale 2 (fsub A B)) = CHR ''-'' # rest))"
proof -
  from assms(1,2) have nz: "\<not> is_zero (series_sum (map (\<lambda>r. to_float (DESCONTOS r)) df))" by simp
  have eq: "inserir_totais_na_coluna series_sum vr df =
      map limpar_especial df @
       [\<lparr>COD = [], DESCRICAO = marcador_A, DESCONTOS = fmt_2f A, DATA = []\<rparr>,
        \<lparr>COD = [], DESCRICAO = marcador_B, DESCONTOS = strip vstr, DATA = []\<rparr>,
        \<lparr>COD = [], DESCRICAO = marcador_indebito, DESCONTOS = fmt_2f (fsub A B), DATA = []\<rparr>,
        \<lparr>COD = [], DESCRICAO = marcador_dobro, DESCONTOS = fmt_2f (fscale 2 (fsub A B)), DATA = []\<rparr>]"
    unfolding inserir_totais_nonzero[where series_sum=series_sum and df=df and vr=vr, OF nz] assms(1) assms(3)[symmetric] assms(4)[symmetric] ..
  have len: "length (inserir_totais_na_coluna series_sum vr df) = length df + 4"
    unfolding eq by simp
  have sub: "\<forall>a b. A = Finite a \<and> B = Finite b \<longrightarrow>
          fsub A B = (if b = 0 then Finite a else round_double (a - b))"
    by (simp add: fsub_def)
  have dob: "\<forall>d. fsub A B = Finite d \<longrightarrow> fscale 2 (fsub A B) = round_double (2 * d)"
    by simp
  have neg: "sign_bit (fsub A B) \<longrightarrow>
          (\<exists>rest. fmt_2f (fsub A B) = CHR ''-'' # rest)
        \<and> (\<exists>rest. fmt_2f (fscale 2 (fsub A B)) = CHR ''-'' # rest)"
    by (simp add: fmt_2f_sign_bit sign_bit_fscale)
  from eq len sub dob neg show ?thesis by blast
qed

theorem inserir_totais_four_summary_rows_witness:
  "inserir_totais_na_coluna soma_sequencial (Some ''200,00'')
      [\<lparr>COD = ''101'', DESCRICAO = ''EMPRESTIMO'', DESCONTOS = ''100,00'', DATA = ''01/2020''\<rparr>,
       \<lparr>COD = ''102'', DESCRICAO = ''SEGURO'', DESCONTOS = ''50,00'', DATA = ''02/2020''\<rparr>]
    = [\<lparr>COD = ''101'', DESCRICAO = ''EMPRESTIMO'', DESCONTOS = ''100,00'', DATA = ''01/2020''\<rparr>,
       \<lparr>COD = ''102'', DESCRICAO = ''SEGURO'', DESCONTOS = ''50,00'', DATA = ''02/2020''\<rparr>,
       \<lparr>COD = [], DESCRICAO = marcador_A, DESCONTOS = ''150.00'', DATA = []\<rparr>,
       \<lparr>COD = [], DESCRICAO = marcador_B, DESCONTOS = ''200,00'', DATA = []\<rparr>,
       \<lparr>COD = [], DESCRICAO = marcador_indebito, DESCONTOS = ''-50.00'', DATA = []\<rparr>,
       \<lparr>COD = [], DESCRICAO = marcador_dobro, DESCONTOS = ''-100.00'', DATA = []\<rparr>]
   \<and> inserir_totais_na_coluna soma_sequencial (Some ''0,8'')
      [\<lparr>COD = ''101'', DESCRICAO = ''EMPRESTIMO'', DESCONTOS = ''0,7'', DATA = ''01/2020''\<rparr>,
       \<lparr>COD = ''102'', DESCRICAO = ''SEGURO'', DESCONTOS = ''0,1'', DATA = ''02/2020''\<rparr>]
    = [\<lparr>COD = ''101'', DESCRICAO = ''EMPRESTIMO'', DESCONTOS = ''0,7'', DATA = ''01/2020''\<rparr>,
       \<lparr>COD = ''102'', DESCRICAO = ''SEGURO'', DESCONTOS = ''0,1'', DATA = ''02/2020''\<rparr>,
       \<lparr>COD = [], DESCRICAO = marcador_A, DESCONTOS = ''0.80'', DATA = []\<rparr>,
       \<lparr>COD = [], DESCRICAO = marcador_B, DESCONTOS = ''0,8'', DATA = []\<rparr>,
       \<lparr>COD = [], DESCRICAO = marcador_indebito, DESCONTOS = ''-0.00'', DATA = []\<rparr>,
       \<lparr>COD = [], DESCRICAO = marcador_dobro, DESCONTOS = ''-0.00'', DATA = []\<rparr>]"
proof -
  let ?df = "[\<lparr>COD = ''101'', DESCRICAO = ''EMPRESTIMO'', DESCONTOS = ''100,00'', DATA = ''01/2020''\<rparr>,
       \<lparr>COD = ''102'', DESCRICAO = ''SEGURO'', DESCONTOS = ''50,00'', DATA = ''02/2020''\<rparr>]"
  let ?dg = "[\<lparr>COD = ''101'', DESCRICAO = ''EMPRESTIMO'', DESCONTOS = ''0,7'', DATA = ''01/2020''\<rparr>,
       \<lparr>COD = ''102'', DESCRICAO = ''SEGURO'', DESCONTOS = ''0,1'', DATA = ''02/2020''\<rparr>]"
  let ?A = "Finite (7205759403792793 / 9007199254740992)"
  let ?B = "Finite (3602879701896397 / 4503599627370496)"
  have h1: "soma_sequencial (map (\<lambda>r. to_float (DESCONTOS r)) ?df) = Finite 150" by code_simp
  have h2: "\<not> is_zero (Finite 150)" by (simp add: is_zero_def)
  have h3: "''200,00'' = (case Some ''200,00'' of None \<Rightarrow> ''0'' | Some v \<Rightarrow> if v = [] then ''0'' else v)"
    by simp
  have h4: "Finite 200 = to_float ''200,00''" by code_simp
  have e1: "fmt_2f (Finite 150) = ''150.00''" by code_simp
  have e2: "fmt_2f (fsub (Finite 150) (Finite 200)) = ''-50.00''" by code_simp
  have e3: "fmt_2f (fscale 2 (fsub (Finite 150) (Finite 200))) = ''-100.00''" by code_simp
  have e4: "strip ''200,00'' = ''200,00''" by code_simp
  have e5: "map limpar_especial ?df = ?df" by code_simp
  have k1: "soma_sequencial (map (\<lambda>r. to_float (DESCONTOS r)) ?dg) = ?A" by code_simp
  have k2: "\<not> is_zero ?A" by (simp add: is_zero_def)
  have k3: "''0,8'' = (case Some ''0,8'' of None \<Rightarrow> ''0'' | Some v \<Rightarrow> if v = [] then ''0'' else v)"
    by simp
  have k4: "?B = to_float ''0,8''" by code_simp
  have f1: "fmt_2f ?A = ''0.80''" by code_simp
  have f2: "fmt_2f (fsub ?A ?B) = ''-0.00''" by code_simp
  have f3: "fmt_2f (fscale 2 (fsub ?A ?B)) = ''-0.00''" by code_simp
  have f4: "strip ''0,8'' = ''0,8''" by code_simp
  have f5: "map limpar_especial ?dg = ?dg" by code_simp
  from inserir_totais_four_summary_rows[where series_sum=soma_sequencial and df="?df", OF h1 h2 h3 h4]
  have a: "inserir_totais_na_coluna soma_sequencial (Some ''200,00'') ?df =
      ?df @ [\<lparr>COD = [], DESCRICAO = marcador_A, DESCONTOS = ''150.00'', DATA = []\<rparr>,
       \<lparr>COD = [], DESCRICAO = marcador_B, DESCONTOS = ''200,00'', DATA = []\<rparr>,
       \<lparr>COD = [], DESCRICAO = marcador_indebito, DESCONTOS = ''-50.00'', DATA = []\<rparr>,
       \<lparr>COD = [], DESCRICAO = marcador_dobro, DESCONTOS = ''-100.00'', DATA = []\<rparr>]"
    unfolding e1 e2 e3 e4 e5 by blast
  from inserir_totais_four_summary_rows[where series_sum=soma_sequencial and df="?dg", OF k1 k2 k3 k4]
  have b: "inserir_totais_na_coluna soma_sequencial (Some ''0,8'') ?dg =
      ?dg @ [\<lparr>COD = [], DESCRICAO = marcador_A, DESCONTOS = ''0.80'', DATA = []\<rparr>,
       \<lparr>COD = [], DESCRICAO = marcador_B, DESCONTOS = ''0,8'', DATA = []\<rparr>,
       \<lparr>COD = [], DESCRICAO = marcador_indebito, DESCONTOS = ''-0.00'', DATA = []\<rparr>,
       \<lparr>COD = [], DESCRICAO = marcador_dobro, DESCONTOS = ''-0.00'', DATA = []\<rparr>]"
    unfolding f1 f2 f3 f4 f5 by blast
  from a b show ?thesis by simp
qed



lemma fst_montar_linha:
  "fst (montar_linha r) = Negrito11Vermelho \<longleftrightarrow>
     DESCRICAO r \<in> {marcador_A, marcador_B, marcador_indebito, marcador_dobro}"
  by (simp add: montar_linha_def is_especial_def)

text \<open>
  Claim C10. The frame has no column that flags a summary row: a row is special exactly
  when its description equals one of the four marker texts. When the summary rows are
  appended (the sum of the column does not compare equal to zero), an input row whose
  description is already a marker text keeps its description and its amount, has its code
  and date replaced by the empty text, and is drawn in the summary style; every other input
  row is returned as it was. The style of any row depends on its description alone.
\<close>

theorem inserir_totais_marker_rows_blanked:
  assumes "\<not> is_zero (series_sum (map (\<lambda>r. to_float (DESCONTOS r)) df))" and "i < length df"
  shows "(DESCRICAO (df ! i) \<in> {marcador_A, marcador_B, marcador_indebito, marcador_dobro} \<longrightarrow>
            inserir_totais_na_coluna series_sum vr df ! i =
              \<lparr>COD = [], DESCRICAO = DESCRICAO (df ! i), DESCONTOS = DESCONTOS (df ! i), DATA = []\<rparr>
            \<and> fst (montar_linha (inserir_totais_na_coluna series_sum vr df ! i)) = Negrito11Vermelho)
       \<and> (DESCRICAO (df ! i) \<notin> {marcador_A, marcador_B, marcador_indebito, marcador_dobro} \<longrightarrow>
            inserir_totais_na_coluna series_sum vr df ! i = df ! i)
       \<and> (\<forall>r. fst (montar_linha r) = Negrito11Vermelho \<longleftrightarrow>
            DESCRICAO r \<in> {marcador_A, marcador_B, marcador_indebito, marcador_dobro})"
proof -
  have at: "inserir_totais_na_coluna series_sum vr df ! i = limpar_especial (df ! i)"
    unfolding inserir_totais_nonzero[where series_sum=series_sum and df=df and vr=vr, OF assms(1)]
    using assms(2) by (simp add: nth_append)
  show ?thesis
    unfolding at by (simp add: fst_montar_linha) (simp add: limpar_especial_def especiais_def)
qed

theorem inserir_totais_marker_rows_blanked_witness:
  "inserir_totais_na_coluna soma_sequencial (Some ''10,00'')
      [\<lparr>COD = ''7'', DESCRICAO = marcador_indebito, DESCONTOS = ''0,1'', DATA = ''03/2021''\<rparr>,
       \<lparr>COD = ''8'', DESCRICAO = ''SEGURO'', DESCONTOS = ''0,2'', DATA = ''03/2021''\<rparr>,
       \<lparr>COD = ''9'', DESCRICAO = ''ESTORNO'', DESCONTOS = ''-0,3'', DATA = ''03/2021''\<rparr>] ! 0
     = \<lparr>COD = [], DESCRICAO = marcador_indebito, DESCONTOS = ''0,1'', DATA = []\<rparr>
   \<and> fst (montar_linha (inserir_totais_na_coluna soma_sequencial (Some ''10,00'')
      [\<lparr>COD = ''7'', DESCRICAO = marcador_indebito, DESCONTOS = ''0,1'', DATA = ''03/2021''\<rparr>,
       \<lparr>COD = ''8'', DESCRICAO = ''SEGURO'', DESCONTOS = ''0,2'', DATA = ''03/2021''\<rparr>,
       \<lparr>COD = ''9'', DESCRICAO = ''ESTORNO'', DESCONTOS = ''-0,3'', DATA = ''03/2021''\<rparr>] ! 0))
     = Negrito11Vermelho
   \<and> inserir_totais_na_coluna soma_sequencial (Some ''10,00'')
      [\<lparr>COD = ''7'', DESCRICAO = marcador_indebito, DESCONTOS = ''0,1'', DATA = ''03/2021''\<rparr>,
       \<lparr>COD = ''8'', DESCRICAO = ''SEGURO'', DESCONTOS = ''0,2'', DATA = ''03/2021''\<rparr>,
       \<lparr>COD = ''9'', DESCRICAO = ''ESTORNO'', DESCONTOS = ''-0,3'', DATA = ''03/2021''\<rparr>] ! 1
     = \<lparr>COD = ''8'', DESCRICAO = ''SEGURO'', DESCONTOS = ''0,2'', DATA = ''03/2021''\<rparr>"
proof -
  let ?df = "[\<lparr>COD = ''7'', DESCRICAO = marcador_indebito, DESCONTOS = ''0,1'', DATA = ''03/2021''\<rparr>,
       \<lparr>COD = ''8'', DESCRICAO = ''SEGURO'', DESCONTOS = ''0,2'', DATA = ''03/2021''\<rparr>,
       \<lparr>COD = ''9'', DESCRICAO = ''ESTORNO'', DESCONTOS = ''-0,3'', DATA = ''03/2021''\<rparr>]"
  have s: "soma_sequencial (map (\<lambda>r. to_float (DESCONTOS r)) ?df) = Finite (1 / 18014398509481984)"
    by code_simp
  have h1: "\<not> is_zero (soma_sequencial (map (\<lambda>r. to_float (DESCONTOS r)) ?df))"
    unfolding s by (simp add: is_zero_def)
  have i0: "0 < length ?df" and i1: "1 < length ?df" by simp_all
  have n: "''SEGURO'' \<notin> {marcador_A, marcador_B, marcador_indebito, marcador_dobro}"
    by (simp add: marcador_A_def marcador_B_def marcador_indebito_def marcador_dobro_def)
  from inserir_totais_marker_rows_blanked[where series_sum=soma_sequencial and df="?df"
         and vr="Some ''10,00''", OF h1 i0]
       inserir_totais_marker_rows_blanked[where series_sum=soma_sequencial and df="?df"
         and vr="Some ''10,00''", OF h1 i1] n
  show ?thesis by simp
qed

section \<open>Parsing and formatting of amounts\<close>

lemma is_digit_char_of: "is_digit c \<Longrightarrow> digit_char (digit_val c) = c"
  by (simp add: is_digit_def digit_char_def digit_val_def)

lemma digit_val_less: "is_digit c \<Longrightarrow> digit_val c < 10"
  by (auto simp: is_digit_def digit_val_def)

lemma is_digit_digit_char: "d < 10 \<Longrightarrow> is_digit (digit_char d)"
  by (simp add: is_digit_def digit_char_def)

lemma digit_val_digit_char: "d < 10 \<Longrightarrow> digit_val (digit_char d) = d"
  by (simp add: digit_val_def digit_char_def)

lemma digit_char_0: "digit_char 0 = CHR ''0''"
  by code_simp

lemma digit_val_zero: "is_digit c \<Longrightarrow> digit_val c = 0 \<longleftrightarrow> c = CHR ''0''"
proof
  assume d: "is_digit c" and z: "digit_val c = 0"
  from is_digit_char_of[OF d] z have "c = digit_char 0" by simp
  then show "c = CHR ''0''" by (simp add: digit_char_0)
next
  assume "c = CHR ''0''"
  then show "digit_val c = 0" by (simp add: digit_val_def)
qed

lemma digits_val_snoc:
  "is_digit c \<Longrightarrow> digits_val (ds @ [c]) = 10 * digits_val ds + digit_val c"
  by (simp add: digits_val_def)

lemma digits_val_Nil: "digits_val [] = 0"
  by (simp add: digits_val_def)

lemma dec_digits: "list_all is_digit (dec n) \<and> dec n \<noteq> []"
proof (induction n rule: dec.induct)
  case (1 n)
  show ?case
  proof (cases "n < 10")
    case True
    then show ?thesis by (simp add: dec.simps[of n] is_digit_digit_char)
  next
    case False
    with 1 show ?thesis by (simp add: dec.simps[of n] is_digit_digit_char)
  qed
qed

lemma digits_val_dec: "digits_val (dec n) = n"
proof (induction n rule: dec.induct)
  case (1 n)
  show ?case
  proof (cases "n < 10")
    case True
    then show ?thesis
      by (simp add: dec.simps[of n] digits_val_def is_digit_digit_char digit_val_digit_char)
  next
    case False
    have d: "is_digit (digit_char (n mod 10))" by (simp add: is_digit_digit_char)
    from False 1 have "digits_val (dec (n div 10)) = n div 10" by simp
    with False show ?thesis
      by (simp add: dec.simps[of n] digits_val_snoc[OF d] digit_val_digit_char)
  qed
qed

lemma dec_digits_val_aux:
  "list_all is_digit ds \<Longrightarrow>
     (digits_val ds = 0 \<longleftrightarrow> dropWhile (\<lambda>c. c = CHR ''0'') ds = [])
   \<and> (digits_val ds \<noteq> 0 \<longrightarrow> dec (digits_val ds) = dropWhile (\<lambda>c. c = CHR ''0'') ds)"
proof (induction ds rule: rev_induct)
  case Nil
  then show ?case by (simp add: digits_val_Nil)
next
  case (snoc c ds)
  from snoc.prems have c: "is_digit c" and ds: "list_all is_digit ds" by simp_all
  note ih = snoc.IH[OF ds]
  have v: "digits_val (ds @ [c]) = 10 * digits_val ds + digit_val c"
    by (rule digits_val_snoc[OF c])
  show ?case
  proof (cases "digits_val ds = 0")
    case True
    with ih have dw: "dropWhile (\<lambda>c. c = CHR ''0'') ds = []" by simp
    then have all0: "\<forall>x \<in> set ds. x = CHR ''0''" by (simp add: dropWhile_eq_Nil_conv)
    have dws: "dropWhile (\<lambda>c. c = CHR ''0'') (ds @ [c]) = (if c = CHR ''0'' then [] else [c])"
      using all0 by (simp add: dropWhile_append2)
    from True v have v': "digits_val (ds @ [c]) = digit_val c" by simp
    show ?thesis
      unfolding v' dws using c digit_val_less[OF c]
      by (auto simp: digit_val_zero dec.simps[of "digit_val c"] is_digit_char_of)
  next
    case False
    with ih have dw: "dec (digits_val ds) = dropWhile (\<lambda>c. c = CHR ''0'') ds"
      and ne: "dropWhile (\<lambda>c. c = CHR ''0'') ds \<noteq> []" by simp_all
    from ne have dws: "dropWhile (\<lambda>c. c = CHR ''0'') (ds @ [c]) = dropWhile (\<lambda>c. c = CHR ''0'') ds @ [c]"
      by (metis dropWhile_append1 dropWhile_eq_Nil_conv)
    from False have big: "\<not> 10 * digits_val ds + digit_val c < 10" by simp
    have "dec (10 * digits_val ds + digit_val c) = dec (digits_val ds) @ [c]"
      using big digit_val_less[OF c] by (simp add: dec.simps[of "10 * digits_val ds + digit_val c"] is_digit_char_of[OF c])
    with False show ?thesis unfolding v dws dw by simp
  qed
qed

lemma dec_digits_val:
  assumes "list_all is_digit ds"
  shows "dec (digits_val ds) = sem_zeros ds"
proof (cases "digits_val ds = 0")
  case True
  with dec_digits_val_aux[OF assms] have dw: "dropWhile (\<lambda>c. c = CHR ''0'') ds = []" by simp
  show ?thesis unfolding sem_zeros_def dw True by (simp add: dec.simps[of 0] digit_char_0)
next
  case False
  with dec_digits_val_aux[OF assms]
  have d: "dec (digits_val ds) = dropWhile (\<lambda>c. c = CHR ''0'') ds"
    and n: "dropWhile (\<lambda>c. c = CHR ''0'') ds \<noteq> []" by simp_all
  from n obtain r rs where c: "dropWhile (\<lambda>c. c = CHR ''0'') ds = r # rs"
    by (cases "dropWhile (\<lambda>c. c = CHR ''0'') ds") blast+
  show ?thesis unfolding d sem_zeros_def c by simp
qed

lemma is_digit_neq: "is_digit c \<Longrightarrow> (of_char d :: nat) < 48 \<or> 57 < (of_char d :: nat) \<Longrightarrow> c \<noteq> d"
  by (auto simp: is_digit_def)

lemma is_digit_not_space: "is_digit c \<Longrightarrow> \<not> is_space c"
  by (auto simp: is_digit_def is_space_def)

lemma is_digit_dp_char: "is_digit c \<Longrightarrow> dp_char c"
  by (simp add: dp_char_def)

lemma is_digit_lower: "is_digit c \<Longrightarrow> ascii_lower c = c"
  by (auto simp: is_digit_def ascii_lower_def)

lemma strip_id:
  assumes "s \<noteq> []" and "\<not> is_space (hd s)" and "\<not> is_space (last s)"
  shows "strip s = s"
proof -
  from assms(1,2) have a: "dropWhile is_space s = s" by (cases s) simp_all
  from assms(1,3) have b: "dropWhile is_space (rev s) = rev s"
    by (cases "rev s") (simp_all add: hd_rev[symmetric])
  show ?thesis unfolding strip_def a b by simp
qed

lemma digitpart_digits: "list_all is_digit ds \<Longrightarrow> ds \<noteq> [] \<Longrightarrow> digitpart ds"
proof (induction ds rule: digitpart.induct)
  case (3 c d cs)
  from "3.prems" have d: "is_digit d" by simp
  then have "d \<noteq> CHR ''_''" by (rule is_digit_neq) simp
  with 3 show ?case by simp
qed simp_all

lemma filter_digits: "list_all is_digit ds \<Longrightarrow> filter is_digit ds = ds"
  by (simp add: list_all_iff)

lemma takeWhile_dp_digits:
  assumes "list_all is_digit ds" and "\<not> dp_char x"
  shows "takeWhile dp_char (ds @ x # rest) = ds" and "dropWhile dp_char (ds @ x # rest) = x # rest"
proof -
  from assms(1) have all: "\<forall>c \<in> set ds. dp_char c" by (simp add: list_all_iff is_digit_dp_char)
  then show "takeWhile dp_char (ds @ x # rest) = ds" using assms(2) by (simp add: takeWhile_tail)
  from all show "dropWhile dp_char (ds @ x # rest) = x # rest" using assms(2)
    by (simp add: dropWhile_append2)
qed

lemma takeWhile_dp_all:
  assumes "list_all is_digit ds"
  shows "takeWhile dp_char ds = ds" and "dropWhile dp_char ds = []"
  using assms by (simp_all add: list_all_iff is_digit_dp_char)

lemma not_dp_char_point: "\<not> dp_char (CHR ''.'')"
  by (simp add: dp_char_def is_digit_def)

lemma parse_number_point:
  assumes "list_all is_digit ds" and "ds \<noteq> []" and "list_all is_digit fs" and "fs \<noteq> []"
  shows "parse_number (ds @ CHR ''.'' # fs) = Some (of_nat (digits_val (ds @ fs)) / 10 ^ length fs)"
proof -
  note tw = takeWhile_dp_digits[OF assms(1) not_dp_char_point, of fs]
  have sc: "scale10 m (- int (length fs)) = of_nat m / 10 ^ length fs" for m
    using assms(4) by (simp add: scale10_def)
  show ?thesis
    unfolding parse_number_def tw
    using assms
    by (simp add: takeWhile_dp_all digitpart_digits parse_exponent_def filter_digits sc)
qed

lemma parse_number_digits:
  assumes "list_all is_digit ds" and "ds \<noteq> []"
  shows "parse_number ds = Some (of_nat (digits_val ds))"
  unfolding parse_number_def
  using assms
  by (simp add: takeWhile_dp_all digitpart_digits parse_exponent_def scale10_def)

lemma replace_digits:
  "list_all is_digit ds \<Longrightarrow> (of_char x :: nat) < 48 \<or> 57 < (of_char x :: nat) \<Longrightarrow> replace ds x y = ds"
  unfolding replace_def by (rule map_idI) (auto simp: list_all_iff dest: is_digit_neq)

lemma remove_digits:
  "list_all is_digit ds \<Longrightarrow> (of_char x :: nat) < 48 \<or> 57 < (of_char x :: nat) \<Longrightarrow> remove ds x = ds"
  unfolding remove_def by (auto simp: list_all_iff filter_id_conv dest: is_digit_neq)

lemma digits_val_two:
  assumes "is_digit a" and "is_digit b"
  shows "digits_val (ds @ [a, b]) = 100 * digits_val ds + 10 * digit_val a + digit_val b"
proof -
  have "digits_val ((ds @ [a]) @ [b]) = 10 * digits_val (ds @ [a]) + digit_val b"
    by (rule digits_val_snoc[OF assms(2)])
  also have "digits_val (ds @ [a]) = 10 * digits_val ds + digit_val a"
    by (rule digits_val_snoc[OF assms(1)])
  finally show ?thesis by simp
qed

lemma round_half_even_of_nat: "round_half_even (of_nat n) = int n"
  by (simp add: round_half_even_def)

lemma fmt_2f_cents:
  "fmt_2f (Finite (of_nat n / 100)) =
     thousands (CHR '','') (dec (n div 100)) @ ''.'' @ [digit_char (n mod 100 div 10), digit_char (n mod 10)]"
proof -
  have "\<bar>rat_of_nat n / 100\<bar> * 100 = of_nat n" by simp
  then show ?thesis
    by (simp add: fmt_2f_def round_half_even_of_nat del: of_nat_numeral)
qed

lemma cents_split:
  fixes m a b :: nat
  assumes "a < 10" and "b < 10"
  shows "(100 * m + 10 * a + b) div 100 = m"
    and "(100 * m + 10 * a + b) mod 100 div 10 = a"
    and "(100 * m + 10 * a + b) mod 10 = b"
proof -
  from assms have r: "10 * a + b < 100" by simp
  have e: "100 * m + 10 * a + b = (10 * a + b) + m * 100" by simp
  show "(100 * m + 10 * a + b) div 100 = m" unfolding e using r by simp
  have "(100 * m + 10 * a + b) mod 100 = 10 * a + b" unfolding e using r by simp
  moreover have "(10 * a + b) div 10 = a" using assms(2) by simp
  ultimately show "(100 * m + 10 * a + b) mod 100 div 10 = a" by simp
  have e': "100 * m + 10 * a + b = b + (10 * m + a) * 10" by simp
  show "(100 * m + 10 * a + b) mod 10 = b" unfolding e' using assms(2)
    by (simp only: mod_mult_self1 mod_less)
qed

lemma fmt_2f_digits:
  assumes "is_digit a" and "is_digit b"
  shows "fmt_2f (Finite (of_nat (digits_val (ds @ [a, b])) / 100)) =
     thousands (CHR '','') (dec (digits_val ds)) @ ''.'' @ [a, b]"
proof -
  let ?n = "digits_val (ds @ [a, b])"
  note v = digits_val_two[OF assms, of ds]
  note la = digit_val_less[OF assms(1)] and lb = digit_val_less[OF assms(2)]
  have d: "?n div 100 = digits_val ds" unfolding v by (rule cents_split(1)[OF la lb])
  have m1: "?n mod 100 div 10 = digit_val a" unfolding v by (rule cents_split(2)[OF la lb])
  have m2: "?n mod 10 = digit_val b" unfolding v by (rule cents_split(3)[OF la lb])
  show ?thesis
    unfolding fmt_2f_cents d m1 m2 by (simp add: is_digit_char_of assms)
qed

lemma filter_group3: "filter (\<lambda>c. c \<noteq> sep) (group3 sep xs) = filter (\<lambda>c. c \<noteq> sep) xs"
  by (induction sep xs rule: group3.induct) simp_all

lemma map_group3: "map f (group3 sep xs) = group3 (f sep) (map f xs)"
  by (induction sep xs rule: group3.induct) simp_all

lemma remove_thousands:
  assumes "list_all is_digit ds" and "(of_char sep :: nat) < 48 \<or> 57 < (of_char sep :: nat)"
  shows "remove (thousands sep ds) sep = ds"
proof -
  have "remove (thousands sep ds) sep = rev (filter (\<lambda>c. c \<noteq> sep) (rev ds))"
    by (simp add: remove_def thousands_def rev_filter[symmetric] filter_group3)
  also have "\<dots> = remove ds sep" by (simp add: remove_def rev_filter)
  also have "\<dots> = ds" by (rule remove_digits[OF assms])
  finally show ?thesis .
qed

lemma map_thousands: "map f (thousands sep ds) = thousands (f sep) (map f ds)"
  by (simp add: thousands_def rev_map[symmetric] map_group3)

lemma replace_chain:
  "replace (replace (replace s (CHR '','') (CHR ''X'')) (CHR ''.'') (CHR '','')) (CHR ''X'') (CHR ''.'')
     = map troca s"
  by (simp add: replace_def troca_def)

lemma troca_digit: "is_digit c \<Longrightarrow> troca c = c"
proof -
  assume d: "is_digit c"
  have "c \<noteq> CHR '',''" "c \<noteq> CHR ''.''" "c \<noteq> CHR ''X''"
    by (rule is_digit_neq[OF d], simp)+
  then show ?thesis by (simp add: troca_def)
qed

lemma troca_digits: "list_all is_digit ds \<Longrightarrow> map troca ds = ds"
  by (rule map_idI) (simp add: list_all_iff troca_digit)

lemma group3_short: "length xs \<le> 3 \<Longrightarrow> group3 sep xs = xs"
  by (induction sep xs rule: group3.induct) simp_all

lemma thousands_agrupar: "thousands (CHR ''.'') ds = agrupar ds"
proof (induction ds rule: agrupar.induct)
  case (1 ds)
  show ?case
  proof (cases "length ds \<le> 3")
    case True
    then show ?thesis by (simp add: thousands_def group3_short agrupar.simps[of ds])
  next
    case False
    define p where "p = take (length ds - 3) ds"
    define q where "q = drop (length ds - 3) ds"
    have ds: "ds = p @ q" by (simp add: p_def q_def)
    from False have lq: "length q = 3" and pn: "p \<noteq> []" by (auto simp: p_def q_def)
    from lq obtain c1 c2 c3 where q: "q = [c1, c2, c3]"
      by (cases q; cases "tl q"; cases "tl (tl q)"; cases "tl (tl (tl q))") auto
    from pn obtain d r where rp: "rev p = d # r" by (cases "rev p") auto
    have "group3 (CHR ''.'') (rev ds) = c3 # c2 # c1 # CHR ''.'' # group3 (CHR ''.'') (rev p)"
      by (simp add: ds q rp)
    then have "thousands (CHR ''.'') ds = thousands (CHR ''.'') p @ CHR ''.'' # q"
      by (simp add: thousands_def q)
    also have "thousands (CHR ''.'') p = agrupar p" using "1.IH" False by (simp add: p_def)
    finally show ?thesis using False by (simp add: agrupar.simps[of ds] p_def q_def)
  qed
qed

lemma round_half_even_near:
  assumes "\<bar>y - of_int n\<bar> < 1 / 2"
  shows "round_half_even y = n"
proof (cases "of_int n \<le> y")
  case True
  from assms have "y < of_int n + 1" by linarith
  with True have f: "\<lfloor>y\<rfloor> = n" by (simp add: floor_unique)
  from True assms have "y - of_int n < 1 / 2" by linarith
  then show ?thesis by (simp add: round_half_even_def f)
next
  case False
  have e: "rat_of_int (n - 1) = of_int n - 1" by simp
  from assms have a: "of_int (n - 1) \<le> y" unfolding e by linarith
  from False have b: "y < of_int (n - 1) + 1" unfolding e by linarith
  from a b have f: "\<lfloor>y\<rfloor> = n - 1" by (rule floor_unique)
  from False assms have "1 / 2 < y - of_int (n - 1)" unfolding e by linarith
  then show ?thesis by (simp add: round_half_even_def f Let_def)
qed

lemma fmt_2f_binary_neighbour:
  fixes x u :: rat
  assumes "0 < u" and "2 ^ 52 \<le> m" and "x = of_int m * u"
    and "\<bar>x - of_nat n / 100\<bar> \<le> u / 2" and "n < 10 ^ 15"
  shows "fmt_2f (Finite x) = fmt_2f (Finite (of_nat n / 100))"
proof -
  define q :: rat where "q = of_nat n / 100"
  have "rat_of_int (2 ^ 52) \<le> of_int m" using assms(2) by (simp only: of_int_le_iff)
  then have m: "(2 :: rat) ^ 52 \<le> of_int m" by simp
  have "2 ^ 52 * u \<le> of_int m * u" using m assms(1) by (rule mult_right_mono[OF _ less_imp_le])
  with assms(3) have ux: "2 ^ 52 * u \<le> x" by simp
  have "0 < 2 ^ 52 * u" using assms(1) by simp
  with ux have xpos: "0 < x" by linarith
  from ux have u: "u / 2 \<le> x / 2 ^ 53" by simp
  from assms(4) u have d: "\<bar>x - q\<bar> \<le> x / 2 ^ 53" unfolding q_def by linarith
  have "rat_of_nat n < of_nat (10 ^ 15)" using assms(5) by (simp only: of_nat_less_iff)
  then have qb: "q < 10 ^ 13" unfolding q_def by simp
  from d have "x - x / 2 ^ 53 \<le> q" by linarith
  with qb have "x - x / 2 ^ 53 < 10 ^ 13" by linarith
  then have "x / 2 ^ 53 < 1 / 200" by simp
  with d have c: "\<bar>x - q\<bar> < 1 / 200" by linarith
  have "x * 100 - of_int (int n) = 100 * (x - q)" unfolding q_def by simp
  then have "\<bar>x * 100 - of_int (int n)\<bar> = 100 * \<bar>x - q\<bar>" by (simp only: abs_mult abs_numeral)
  moreover from c have "100 * \<bar>x - q\<bar> < 1 / 2" by simp
  ultimately have "\<bar>x * 100 - of_int (int n)\<bar> < 1 / 2" by (simp only:)
  then have r: "round_half_even (x * 100) = int n" by (rule round_half_even_near)
  from xpos have ax: "\<bar>x\<bar> = x" by simp
  have "fmt_2f (Finite x) =
      thousands (CHR '','') (dec (n div 100)) @ ''.'' @ [digit_char (n mod 100 div 10), digit_char (n mod 10)]"
    using xpos by (simp add: fmt_2f_def ax r del: of_nat_numeral)
  then show ?thesis by (simp only: fmt_2f_cents)
qed

lemma bitlen_powi:
  assumes "0 < a"
  shows "2 powi (bitlen a - 1) \<le> rat_of_int a" and "rat_of_int a < 2 powi (bitlen a)"
proof -
  from bitlen_bounds[OF assms] have l: "2 ^ nat (bitlen a - 1) \<le> a" and u: "a < 2 ^ nat (bitlen a)"
    by simp_all
  from assms have "bitlen a \<noteq> 0" by (simp add: bitlen_eq_zero_iff)
  with bitlen_nonneg[of a] have b1: "1 \<le> bitlen a" by linarith
  from l have "rat_of_int (2 ^ nat (bitlen a - 1)) \<le> of_int a" by (simp only: of_int_le_iff)
  then show "2 powi (bitlen a - 1) \<le> rat_of_int a" using b1 by (simp add: power_int_nonneg_exp)
  from u have "rat_of_int a < of_int (2 ^ nat (bitlen a))" by (simp only: of_int_less_iff)
  then show "rat_of_int a < 2 powi (bitlen a)" using b1 by (simp add: power_int_nonneg_exp)
qed

lemma expoente_bounds:
  assumes "0 < q"
  shows "2 powi (expoente q) \<le> q" and "q < 2 powi (expoente q + 1)"
proof -
  obtain a b where qo: "quotient_of q = (a, b)" by (cases "quotient_of q")
  then have b: "0 < b" by (rule quotient_of_denom_pos)
  from qo have q: "q = of_int a / of_int b" by (rule quotient_of_div)
  with assms b have a: "0 < a" by (simp add: zero_less_divide_iff)
  define k where "k = bitlen a - bitlen b"
  note la = bitlen_powi[OF a] and lb = bitlen_powi[OF b]
  have bq: "0 < rat_of_int b" using b by simp
  have p: "0 < (2::rat) powi n" for n by simp
  have "2 powi (k - 1) = (2::rat) powi (bitlen a - 1) / 2 powi (bitlen b)"
    unfolding k_def by (simp add: power_int_diff[symmetric] algebra_simps)
  also have "\<dots> < 2 powi (bitlen a - 1) / of_int b"
    using lb(2) bq p by (intro divide_strict_left_mono) simp_all
  also have "\<dots> \<le> of_int a / of_int b"
    using la(1) bq by (intro divide_right_mono) simp_all
  finally have lo: "2 powi (k - 1) < q" unfolding q .
  have "of_int a / of_int b < (2::rat) powi (bitlen a) / of_int b"
    using la(2) bq by (intro divide_strict_right_mono) simp_all
  also have "\<dots> \<le> 2 powi (bitlen a) / 2 powi (bitlen b - 1)"
    using lb(1) bq p by (intro divide_left_mono) simp_all
  also have "\<dots> = 2 powi (k + 1)"
    unfolding k_def by (simp add: power_int_diff[symmetric] algebra_simps)
  finally have hi: "q < 2 powi (k + 1)" unfolding q .
  have e: "expoente q = (if 2 powi k \<le> q then k else k - 1)"
    by (simp add: expoente_def qo k_def Let_def)
  show "2 powi (expoente q) \<le> q" unfolding e using lo by auto
  show "q < 2 powi (expoente q + 1)" unfolding e using hi by auto
qed

lemma round_half_even_error: "\<bar>of_int (round_half_even y) - y\<bar> \<le> 1 / 2"
proof -
  have "of_int \<lfloor>y\<rfloor> \<le> y" and "y < of_int \<lfloor>y\<rfloor> + 1" by linarith+
  then show ?thesis by (auto simp: round_half_even_def Let_def)
qed

lemma round_half_even_of_int: "round_half_even (of_int k) = k"
  by (simp add: round_half_even_def)

lemma round_half_even_ge: "of_int n \<le> y \<Longrightarrow> n \<le> round_half_even y"
proof -
  assume "of_int n \<le> y"
  then have "n \<le> \<lfloor>y\<rfloor>" by (simp add: le_floor_iff)
  then show ?thesis by (auto simp: round_half_even_def Let_def)
qed

lemma round_half_even_le: "y \<le> of_int n \<Longrightarrow> round_half_even y \<le> n"
proof -
  assume a: "y \<le> of_int n"
  show ?thesis
  proof (cases "y = of_int n")
    case True
    then show ?thesis by (simp add: round_half_even_of_int)
  next
    case False
    with a have "y < of_int n" by simp
    then have "\<lfloor>y\<rfloor> < n" by (simp add: floor_less_iff)
    then show ?thesis by (auto simp: round_half_even_def Let_def)
  qed
qed

text \<open>
  A positive rational in the range of the normal doubles, away from the overflow
  threshold, rounds to a multiple \<open>m * u\<close> of the unit of its binade with \<open>m\<close> at least
  \<open>2 ^ 52\<close>, within half a unit of the rational.
\<close>

lemma round_pos_normal:
  assumes "0 < q" and "- 1022 \<le> expoente q" and "expoente q \<le> 1022"
  shows "\<exists>m u. round_pos q = Finite (of_int m * u) \<and> 0 < u \<and> 2 ^ 52 \<le> m
           \<and> \<bar>of_int m * u - q\<bar> \<le> u / 2"
proof -
  define e where "e = expoente q"
  define u :: rat where "u = 2 powi (e - 52)"
  define m where "m = round_half_even (q / u)"
  have u: "0 < u" unfolding u_def by simp
  have mx: "max (expoente q) (- 1022) = e" using assms(2) by (simp add: e_def)
  have r: "round_pos q = Finite (of_int m * u)"
    unfolding round_pos_def Let_def mx u_def[symmetric] m_def[symmetric]
    using assms(3) by (simp add: e_def)
  have "2 powi e \<le> q" unfolding e_def by (rule expoente_bounds(1)[OF assms(1)])
  then have "2 powi e / u \<le> q / u" using u by (simp add: divide_right_mono)
  moreover have "2 powi e / u = (2::rat) powi 52"
    unfolding u_def by (simp add: power_int_diff[symmetric])
  ultimately have "rat_of_int (2 ^ 52) \<le> q / u" by simp
  then have m52: "2 ^ 52 \<le> m" unfolding m_def by (rule round_half_even_ge)
  have "\<bar>of_int m - q / u\<bar> \<le> 1 / 2" unfolding m_def by (rule round_half_even_error)
  then have "\<bar>of_int m - q / u\<bar> * u \<le> 1 / 2 * u" using u by (simp add: mult_right_mono)
  moreover have "\<bar>of_int m - q / u\<bar> * u = \<bar>of_int m * u - q\<bar>"
  proof -
    have "\<bar>of_int m - q / u\<bar> * u = \<bar>(of_int m - q / u) * u\<bar>" using u by (simp add: abs_mult)
    also have "(of_int m - q / u) * u = of_int m * u - q" using u by (simp add: field_simps)
    finally show ?thesis .
  qed
  ultimately have err: "\<bar>of_int m * u - q\<bar> \<le> u / 2" by simp
  from r u m52 err show ?thesis by blast
qed

text \<open>A positive whole number below \<open>2 ^ 53\<close> is a double.\<close>

lemma round_pos_of_nat:
  assumes "0 < n" and "n < 2 ^ 53"
  shows "round_pos (of_nat n) = Finite (of_nat n)"
proof -
  define q :: rat where "q = of_nat n"
  define e where "e = expoente q"
  have qpos: "0 < q" using assms(1) by (simp add: q_def)
  note b = expoente_bounds[OF qpos, folded e_def]
  have "rat_of_nat n < of_nat (2 ^ 53)" using assms(2) by (simp only: of_nat_less_iff)
  then have q53: "q < 2 powi 53" by (simp add: q_def)
  from b(1) q53 have "(2::rat) powi e < 2 powi 53" by linarith
  then have e53: "e < 53" by (rule power_int_le_imp_less_exp[rotated]) simp_all
  have "1 \<le> q" using assms(1) by (simp add: q_def)
  with b(2) have one: "1 < (2::rat) powi (e + 1)" by simp
  have e0: "0 \<le> e"
  proof (rule ccontr)
    assume "\<not> 0 \<le> e"
    then have "e + 1 \<le> 0" by simp
    then have "(2::rat) powi (e + 1) \<le> 2 powi 0" by (rule power_int_increasing) simp
    with one show False by simp
  qed
  define k where "k = nat (52 - e)"
  have u: "(2::rat) powi (e - 52) = 1 / 2 ^ k"
  proof -
    have "e - 52 = - int k" using e53 by (simp add: k_def)
    then show ?thesis by (simp add: power_int_minus_divide)
  qed
  have "q / (1 / 2 ^ k) = rat_of_int (int n * 2 ^ k)" by (simp add: q_def)
  then have m: "round_half_even (q / (1 / 2 ^ k)) = int n * 2 ^ k"
    by (simp only: round_half_even_of_int)
  have mx: "max (expoente q) (- 1022) = e" using e0 by (simp add: e_def)
  have "round_pos q = Finite (of_int (int n * 2 ^ k) * (1 / 2 ^ k))"
    unfolding round_pos_def Let_def mx u m using e53 by simp
  also have "rat_of_int (int n * 2 ^ k) * (1 / 2 ^ k) = q" by (simp add: q_def)
  finally show ?thesis by (simp add: q_def)
qed

lemma round_pos_zero: "round_pos 0 = Finite 0"
  by code_simp

text \<open>
  An amount of a whole number of cents below \<open>10 ^ 15\<close> is read as a double that the
  two-decimal format writes with the digits of the amount.
\<close>

lemma round_pos_cents:
  assumes "n < 10 ^ 15"
  shows "\<exists>x. round_pos (of_nat n / 100) = Finite x \<and> 0 \<le> x \<and> (x = 0 \<longleftrightarrow> n = 0)
           \<and> fmt_2f (Finite x) = fmt_2f (Finite (of_nat n / 100))"
proof (cases "n = 0")
  case True
  then show ?thesis by (simp add: round_pos_zero)
next
  case False
  define q :: rat where "q = of_nat n / 100"
  define e where "e = expoente q"
  from False have n1: "1 \<le> rat_of_nat n" by simp
  then have qlo: "1 / 100 \<le> q" by (simp add: q_def)
  then have qpos: "0 < q" by simp
  have "rat_of_nat n < of_nat (10 ^ 15)" using assms by (simp only: of_nat_less_iff)
  then have qhi: "q < 10 ^ 13" by (simp add: q_def)
  note b = expoente_bounds[OF qpos, folded e_def]
  have elo: "- 7 \<le> e"
  proof (rule ccontr)
    assume "\<not> - 7 \<le> e"
    then have "e + 1 \<le> - 7" by simp
    then have "(2::rat) powi (e + 1) \<le> 2 powi (- 7)" by (rule power_int_increasing) simp
    also have "\<dots> < 1 / 100" by (simp add: power_int_minus_divide)
    finally show False using b(2) qlo by simp
  qed
  have ehi: "e < 44"
  proof (rule ccontr)
    assume "\<not> e < 44"
    then have "44 \<le> e" by simp
    then have "(2::rat) powi 44 \<le> 2 powi e" by (rule power_int_increasing) simp
    moreover have "(10::rat) ^ 13 < 2 powi 44" by simp
    ultimately show False using b(1) qhi by simp
  qed
  from elo ehi have r1: "- 1022 \<le> expoente q" and r2: "expoente q \<le> 1022" by (simp_all add: e_def)
  from round_pos_normal[OF qpos r1 r2] obtain m u where
    r: "round_pos q = Finite (of_int m * u)" and u: "0 < u" and m: "2 ^ 52 \<le> m"
    and err: "\<bar>of_int m * u - q\<bar> \<le> u / 2" by blast
  from m have "0 < m" by simp
  with u have xpos: "0 < rat_of_int m * u" by simp
  have f: "fmt_2f (Finite (of_int m * u)) = fmt_2f (Finite (of_nat n / 100))"
    by (rule fmt_2f_binary_neighbour[OF u m refl _ assms]) (use err in \<open>simp add: q_def\<close>)
  from r xpos f False show ?thesis unfolding q_def by auto
qed

lemma fmt_2f_zero: "fmt_2f (Finite 0) = ''0.00''"
  by code_simp

lemma fmt_2f_fneg:
  assumes "0 \<le> x"
  shows "fmt_2f (fneg (Finite x)) = CHR ''-'' # fmt_2f (Finite x)"
proof (cases "x = 0")
  case True
  then show ?thesis by (simp add: fmt_2f_zero) (simp add: fmt_2f_def)
next
  case False
  with assms have "0 < x" by simp
  then show ?thesis by (simp add: fmt_2f_def Let_def)
qed

lemma fmt_2f_round_cents:
  assumes "n < 10 ^ 15"
  shows "fmt_2f (if neg then fneg (round_pos (of_nat n / 100)) else round_pos (of_nat n / 100)) =
     (if neg then ''-'' else []) @ thousands (CHR '','') (dec (n div 100)) @ ''.''
       @ [digit_char (n mod 100 div 10), digit_char (n mod 10)]"
proof -
  from round_pos_cents[OF assms] obtain x where
    r: "round_pos (of_nat n / 100) = Finite x" and x: "0 \<le> x"
    and f: "fmt_2f (Finite x) = fmt_2f (Finite (of_nat n / 100))" by blast
  show ?thesis
  proof (cases neg)
    case True
    then show ?thesis unfolding r by (simp add: fmt_2f_fneg[OF x] f fmt_2f_cents del: fneg.simps)
  next
    case False
    then show ?thesis unfolding r by (simp add: f fmt_2f_cents)
  qed
qed

lemma fscale_cents:
  assumes "n < 2 ^ 53"
  shows "fscale (1 / 100) (if neg then fneg (round_pos (of_nat n)) else round_pos (of_nat n)) =
     (if neg then fneg (round_pos (of_nat n / 100)) else round_pos (of_nat n / 100))"
proof (cases "n = 0")
  case True
  then show ?thesis by (simp add: round_pos_zero round_double_def)
next
  case False
  then have n: "0 < n" by simp
  have q: "0 < rat_of_nat n / 100" using n by simp
  show ?thesis
    unfolding round_pos_of_nat[OF n assms] using n q
    by (simp add: round_double_def)
qed

lemma float_space_is_space: "float_space c \<Longrightarrow> is_space c"
  by (auto simp: float_space_def is_space_def)

lemma float_strip_id:
  assumes "s \<noteq> []" and "\<not> is_space (hd s)" and "\<not> is_space (last s)"
  shows "float_strip s = s"
proof -
  from assms(2,3) have h: "\<not> float_space (hd s)" and l: "\<not> float_space (last s)"
    using float_space_is_space by blast+
  from assms(1) h have a: "dropWhile float_space s = s" by (cases s) simp_all
  from assms(1) l have b: "dropWhile float_space (rev s) = rev s"
    by (cases "rev s") (simp_all add: hd_rev[symmetric])
  show ?thesis unfolding float_strip_def a b by simp
qed

lemma strip_padded:
  assumes "list_all is_space esq" and "list_all is_space dir"
    and "s \<noteq> []" and "\<not> is_space (hd s)" and "\<not> is_space (last s)"
  shows "strip (esq @ s @ dir) = s"
proof -
  from assms(1,3,4) have a: "dropWhile is_space (esq @ s @ dir) = s @ dir"
    by (cases s) (simp_all add: dropWhile_append list_all_iff)
  from assms(3,5) have r: "dropWhile is_space (rev s) = rev s"
    by (cases "rev s") (simp_all add: hd_rev[symmetric])
  from assms(2) have "dropWhile is_space (rev dir @ rev s) = dropWhile is_space (rev s)"
    by (simp add: dropWhile_append list_all_iff)
  with r have b: "dropWhile is_space (rev (s @ dir)) = rev s" by simp
  show ?thesis unfolding strip_def a b by simp
qed

lemma replace_spaces: "list_all is_space ws \<Longrightarrow> replace ws (CHR '','') y = ws"
  unfolding replace_def by (rule map_idI) (auto simp: list_all_iff is_space_def)

lemma py_float_signed:
  assumes "is_digit c" and "is_digit (last (c # cs))"
    and "sinal = [] \<or> sinal = ''-'' \<or> sinal = ''+''"
  shows "py_float (sinal @ c # cs) =
     (case parse_number (c # cs) of
        None \<Rightarrow> None
      | Some q \<Rightarrow> Some (if sinal = ''-'' then fneg (round_pos q) else round_pos q))"
proof -
  have hs: "\<not> is_space (hd (sinal @ c # cs))"
    using assms(3) is_digit_not_space[OF assms(1)] by (auto simp: is_space_def)
  have ls: "\<not> is_space (last (sinal @ c # cs))"
    using is_digit_not_space[OF assms(2)] by simp
  have st: "float_strip (sinal @ c # cs) = sinal @ c # cs"
    by (rule float_strip_id[OF _ hs ls]) simp
  have c1: "c \<noteq> CHR ''-''" and c2: "c \<noteq> CHR ''+''" and c3: "c \<noteq> CHR ''i''" and c4: "c \<noteq> CHR ''n''"
    by (rule is_digit_neq[OF assms(1)], simp)+
  from c1 c2 assms(3) have ps: "parse_sign (sinal @ c # cs) = (sinal = ''-'', c # cs)"
    by (auto simp: parse_sign_def)
  have l: "map ascii_lower (c # cs) = c # map ascii_lower cs"
    by (simp add: is_digit_lower[OF assms(1)])
  show ?thesis
    unfolding py_float_def st ps using c3 c4
    by (simp add: is_digit_lower[OF assms(1)] Let_def split: option.splits)
qed

lemma digits_val_zero_snoc: "digits_val (ds @ ''0'') = 10 * digits_val ds"
proof -
  have z: "is_digit (CHR ''0'')" by (simp add: is_digit_def)
  have "digit_val (CHR ''0'') = 0" by (simp add: digit_val_def)
  with digits_val_snoc[OF z, of ds] show ?thesis by simp
qed

lemma digits_val_bound: "list_all is_digit ds \<Longrightarrow> digits_val ds < 10 ^ length ds"
proof (induction ds rule: rev_induct)
  case Nil
  show ?case by (simp add: digits_val_Nil)
next
  case (snoc c ds)
  then have d: "is_digit c" and ih: "digits_val ds < 10 ^ length ds" by simp_all
  from digit_val_less[OF d] ih have "10 * digits_val ds + digit_val c < 10 * 10 ^ length ds"
    by linarith
  then show ?case by (simp add: digits_val_snoc[OF d])
qed

lemma parse_number_decimal:
  assumes "list_all is_digit ds" and "ds \<noteq> []" and "list_all is_digit fs" and "length fs \<le> 2"
  shows "parse_number (ds @ (if fs = [] then [] else CHR ''.'' # fs)) =
     Some (of_nat (digits_val (ds @ fs @ replicate (2 - length fs) (CHR ''0''))) / 100)"
proof -
  consider "fs = []" | a where "fs = [a]" | a b where "fs = [a, b]"
    using assms(4) by (cases fs; cases "tl fs"; cases "tl (tl fs)") auto
  then show ?thesis
  proof cases
    case 1
    have "digits_val (ds @ replicate 2 (CHR ''0'')) = 100 * digits_val ds"
      using digits_val_zero_snoc[of "ds @ ''0''"] digits_val_zero_snoc[of ds]
      by (simp add: numeral_2_eq_2)
    then show ?thesis using 1 parse_number_digits[OF assms(1,2)] by simp
  next
    case 2
    have "digits_val (ds @ [a] @ ''0'') = 10 * digits_val (ds @ [a])"
      using digits_val_zero_snoc[of "ds @ [a]"] by simp
    then show ?thesis using 2 parse_number_point[OF assms(1,2), of fs] assms(3) by simp
  next
    case 3
    then show ?thesis using parse_number_point[OF assms(1,2), of fs] assms(3) by simp
  qed
qed

lemma to_float_decimal:
  assumes "list_all is_space esq" and "list_all is_space dir"
    and "sinal = [] \<or> sinal = ''-'' \<or> sinal = ''+''"
    and "list_all is_digit ds" and "ds \<noteq> []" and "list_all is_digit fs" and "length fs \<le> 2"
  shows "to_float (esq @ sinal @ ds @ (if fs = [] then [] else CHR '','' # fs) @ dir) =
     (let q = of_nat (digits_val (ds @ fs @ replicate (2 - length fs) (CHR ''0''))) / 100
      in if sinal = ''-'' then fneg (round_pos q) else round_pos q)"
proof -
  define body where "body = ds @ (if fs = [] then [] else CHR ''.'' # fs)"
  from assms(5) obtain c cs where ds: "ds = c # cs" by (cases ds) auto
  with assms(4) have c: "is_digit c" by simp
  have bc: "body = c # (cs @ (if fs = [] then [] else CHR ''.'' # fs))"
    by (simp add: body_def ds)
  have lb: "is_digit (last body)"
  proof (cases "fs = []")
    case True
    then have "last body = last ds" by (simp add: body_def)
    with assms(4,5) show ?thesis by (simp add: list_all_iff)
  next
    case False
    then have "last body = last fs" by (simp add: body_def)
    with assms(6) False show ?thesis by (simp add: list_all_iff)
  qed
  have rs: "replace sinal (CHR '','') (CHR ''.'') = sinal"
    using assms(3) by (auto simp: replace_def)
  have rp: "replace (esq @ sinal @ ds @ (if fs = [] then [] else CHR '','' # fs) @ dir) (CHR '','') (CHR ''.'')
      = esq @ (sinal @ body) @ dir"
  proof -
    have m: "\<And>xs ys. replace (xs @ ys) (CHR '','') (CHR ''.'')
        = replace xs (CHR '','') (CHR ''.'') @ replace ys (CHR '','') (CHR ''.'')"
      by (simp add: replace_def)
    have d: "replace ds (CHR '','') (CHR ''.'') = ds" by (rule replace_digits[OF assms(4)]) simp
    have f: "replace fs (CHR '','') (CHR ''.'') = fs" by (rule replace_digits[OF assms(6)]) simp
    have k: "replace (CHR '','' # fs) (CHR '','') (CHR ''.'') = CHR ''.'' # fs"
      using f by (simp add: replace_def)
    show ?thesis
      by (simp add: m rs d k replace_spaces[OF assms(1)] replace_spaces[OF assms(2)] body_def)
        (simp add: replace_def)
  qed
  have hs: "\<not> is_space (hd (sinal @ body))"
    using assms(3) is_digit_not_space[OF c] by (auto simp: is_space_def bc)
  have ls: "\<not> is_space (last (sinal @ body))"
    using is_digit_not_space[OF lb] by (simp add: bc)
  have st: "strip (esq @ (sinal @ body) @ dir) = sinal @ body"
    by (rule strip_padded[OF assms(1,2) _ hs ls]) (simp add: bc)
  have pf: "py_float (sinal @ body) =
     (case parse_number body of
        None \<Rightarrow> None
      | Some q \<Rightarrow> Some (if sinal = ''-'' then fneg (round_pos q) else round_pos q))"
    unfolding bc by (rule py_float_signed[OF c _ assms(3)]) (use lb in \<open>simp add: bc\<close>)
  have pn: "parse_number body =
     Some (of_nat (digits_val (ds @ fs @ replicate (2 - length fs) (CHR ''0''))) / 100)"
    unfolding body_def by (rule parse_number_decimal[OF assms(4,5,6,7)])
  show ?thesis
    unfolding to_float_def rp st pf pn by (simp add: Let_def)
qed

lemma digits_val_cents_bound:
  assumes "list_all is_digit ds" and "length ds \<le> 13" and "is_digit a" and "is_digit b"
  shows "digits_val (ds @ [a, b]) < 10 ^ 15"
proof -
  have "list_all is_digit (ds @ [a, b])" using assms by simp
  from digits_val_bound[OF this] have "digits_val (ds @ [a, b]) < 10 ^ (length ds + 2)" by simp
  also have "(10::nat) ^ (length ds + 2) \<le> 10 ^ 15"
    by (rule power_increasing) (use assms(2) in simp_all)
  finally show ?thesis .
qed

lemma fmt_2f_decimal:
  assumes "list_all is_digit ds" and "length ds \<le> 13" and "is_digit a" and "is_digit b"
  shows "fmt_2f (if neg then fneg (round_pos (of_nat (digits_val (ds @ [a, b])) / 100))
                 else round_pos (of_nat (digits_val (ds @ [a, b])) / 100)) =
     (if neg then ''-'' else []) @ thousands (CHR '','') (dec (digits_val ds)) @ ''.'' @ [a, b]"
proof -
  let ?n = "digits_val (ds @ [a, b])"
  note v = digits_val_two[OF assms(3,4), of ds]
  note la = digit_val_less[OF assms(3)] and lb = digit_val_less[OF assms(4)]
  have d: "?n div 100 = digits_val ds" unfolding v by (rule cents_split(1)[OF la lb])
  have m1: "?n mod 100 div 10 = digit_val a" unfolding v by (rule cents_split(2)[OF la lb])
  have m2: "?n mod 10 = digit_val b" unfolding v by (rule cents_split(3)[OF la lb])
  show ?thesis
    unfolding fmt_2f_round_cents[OF digits_val_cents_bound[OF assms]] d m1 m2
    by (simp add: is_digit_char_of assms)
qed

lemma formatar_valor_brl_us:
  assumes "list_all is_digit ds" and "length ds \<le> 13" and "is_digit a" and "is_digit b"
  shows "formatar_valor_brl
           ((if neg then ''-'' else []) @ thousands (CHR '','') (dec (digits_val ds)) @ ''.'' @ [a, b]) =
         (if neg then ''-'' else []) @ thousands (CHR ''.'') (dec (digits_val ds)) @ '','' @ [a, b]"
proof -
  define xs where "xs = dec (digits_val ds)"
  define sg where "sg = (if neg then ''-'' else [])"
  have dd: "list_all is_digit xs" and dn: "xs \<noteq> []" using dec_digits by (auto simp: xs_def)
  from dn obtain c cs where xc: "xs = c # cs" by (cases xs) auto
  with dd have c: "is_digit c" by simp
  have ab: "list_all is_digit [a, b]" using assms by simp
  have sgc: "sg = [] \<or> sg = ''-'' \<or> sg = ''+''" by (simp add: sg_def)
  have sgn: "(sg = ''-'') = neg" by (simp add: sg_def)
  have rs: "remove sg (CHR '','') = sg" "remove sg (CHR ''.'') = sg"
    by (simp_all add: sg_def remove_def)
  have ra: "\<And>u v x. remove (u @ v) x = remove u x @ remove v x" by (simp add: remove_def)
  have r1: "remove (sg @ thousands (CHR '','') xs @ ''.'' @ [a, b]) (CHR '','') = sg @ xs @ ''.'' @ [a, b]"
  proof -
    have "remove (thousands (CHR '','') xs) (CHR '','') = xs"
      by (rule remove_thousands[OF dd]) simp
    moreover have "remove [a, b] (CHR '','') = [a, b]" by (rule remove_digits[OF ab]) simp
    moreover have "remove ''.'' (CHR '','') = ''.''" by (simp add: remove_def)
    ultimately show ?thesis by (simp only: ra rs)
  qed
  have r2: "remove (sg @ xs @ ''.'' @ [a, b]) (CHR ''.'') = sg @ xs @ [a, b]"
  proof -
    have "remove xs (CHR ''.'') = xs" by (rule remove_digits[OF dd]) simp
    moreover have "remove [a, b] (CHR ''.'') = [a, b]" by (rule remove_digits[OF ab]) simp
    moreover have "remove ''.'' (CHR ''.'') = []" by (simp add: remove_def)
    ultimately show ?thesis by (simp only: ra rs append_Nil)
  qed
  have all: "list_all is_digit (xs @ [a, b])" using dd assms by simp
  have pf: "py_float (sg @ xs @ [a, b])
      = (case parse_number (xs @ [a, b]) of
           None \<Rightarrow> None
         | Some q \<Rightarrow> Some (if sg = ''-'' then fneg (round_pos q) else round_pos q))"
    unfolding xc append_Cons by (rule py_float_signed[OF c _ sgc]) (use assms(4) in simp)
  have pn: "parse_number (xs @ [a, b]) = Some (of_nat (digits_val (xs @ [a, b])))"
    by (rule parse_number_digits[OF all]) simp
  have dv: "digits_val (xs @ [a, b]) = digits_val (ds @ [a, b])"
    by (simp add: digits_val_two[OF assms(3,4)] xs_def digits_val_dec)
  have lt: "digits_val (ds @ [a, b]) < 2 ^ 53"
    using digits_val_cents_bound[OF assms] by simp
  have m: "map troca (sg @ thousands (CHR '','') xs @ ''.'' @ [a, b])
      = sg @ thousands (CHR ''.'') xs @ '','' @ [a, b]"
    by (simp add: map_thousands troca_digits[OF dd] troca_digit assms) (simp add: troca_def sg_def)
  show ?thesis
    unfolding xs_def[symmetric] sg_def[symmetric] formatar_valor_brl_def r1 r2 pf pn dv
    by (simp only: option.case Let_def sgn fscale_cents[OF lt] fmt_2f_decimal[OF assms]
          replace_chain) (simp only: xs_def[symmetric] sg_def[symmetric] m)
qed

text \<open>
  Claim C1. The program renders a number as PT-BR text in two steps: the totals are written
  with the format \<open>{:,.2f}\<close> and the report passes that text through
  \<open>formatar_valor_brl\<close>. The arithmetic parse only turns the comma into a point, so the
  text \<open>1.234,56\<close> becomes \<open>1.234.56\<close>, which is no number: it parses to 0.0 and comes
  back as \<open>0,00\<close>.
\<close>

theorem roundtrip_thousands_separator_counterexample:
  "to_float ''1.234,56'' = Finite 0
   \<and> formatar_valor_brl (fmt_2f (to_float ''1.234,56'')) = ''0,00''
   \<and> formatar_valor_brl (fmt_2f (to_float ''1.234,56'')) \<noteq> ''1.234,56''"
  by code_simp

text \<open>
  Claim C1, amended. Take a decimal numeral written without thousands separator: an
  optional sign, one to thirteen digits, and optionally a comma followed by one or two
  digits, with any white space around it. Parsing and formatting give the canonical
  notation of the same value: the minus sign if there was one (also on a zero amount),
  the integer part without leading zeros, grouped in threes by points, a comma and the
  fraction digits filled with zeros to two places (\<open>ptbr_canonico\<close>, defined on the digits
  without any arithmetic). The parse yields the double nearest to the decimal value and
  the format rounds that double to two decimals; up to thirteen integer digits the double
  lies much closer to the decimal value than half a cent, so that both roundings, of the
  total and of its hundredfold inside \<open>formatar_valor_brl\<close>, return the digits that were
  read.
\<close>

theorem roundtrip_without_thousands_separator:
  assumes "list_all is_space esq" and "list_all is_space dir"
    and "sinal = [] \<or> sinal = ''-'' \<or> sinal = ''+''"
    and "ds \<noteq> []" and "list_all is_digit ds" and "length ds \<le> 13"
    and "list_all is_digit fs" and "length fs \<le> 2"
  shows "formatar_valor_brl
           (fmt_2f (to_float (esq @ sinal @ ds @ (if fs = [] then [] else CHR '','' # fs) @ dir))) =
         (if sinal = ''-'' then ''-'' else [])
           @ ptbr_canonico ds (fs @ replicate (2 - length fs) (CHR ''0''))"
proof -
  define gs where "gs = fs @ replicate (2 - length fs) (CHR ''0'')"
  have z: "is_digit (CHR ''0'')" by (simp add: is_digit_def)
  have lg: "length gs = 2" using assms(8) by (simp add: gs_def)
  have dg: "list_all is_digit gs" using assms(7) z by (auto simp: gs_def list_all_iff)
  from lg obtain a b where ab: "gs = [a, b]"
    by (cases gs; cases "tl gs"; cases "tl (tl gs)") auto
  with dg have a: "is_digit a" and b: "is_digit b" by simp_all
  have dd: "list_all is_digit (dec (digits_val ds))" using dec_digits by blast
  have tf: "to_float (esq @ sinal @ ds @ (if fs = [] then [] else CHR '','' # fs) @ dir) =
      (if sinal = ''-'' then fneg (round_pos (of_nat (digits_val (ds @ [a, b])) / 100))
       else round_pos (of_nat (digits_val (ds @ [a, b])) / 100))"
    unfolding to_float_decimal[OF assms(1,2,3,5,4,7,8)] gs_def[symmetric] ab
    by (simp add: Let_def)
  have "formatar_valor_brl
          (fmt_2f (to_float (esq @ sinal @ ds @ (if fs = [] then [] else CHR '','' # fs) @ dir)))
      = formatar_valor_brl
          ((if sinal = ''-'' then ''-'' else []) @ thousands (CHR '','') (dec (digits_val ds)) @ ''.'' @ [a, b])"
    by (simp only: tf fmt_2f_decimal[OF assms(5,6) a b])
  also have "\<dots> = (if sinal = ''-'' then ''-'' else [])
      @ thousands (CHR ''.'') (dec (digits_val ds)) @ '','' @ [a, b]"
    by (rule formatar_valor_brl_us[OF assms(5,6) a b])
  also have "\<dots> = (if sinal = ''-'' then ''-'' else []) @ agrupar (sem_zeros ds) @ '','' @ [a, b]"
    by (simp only: dec_digits_val[OF assms(5)] thousands_agrupar)
  finally show ?thesis by (simp only: ptbr_canonico_def gs_def[symmetric] ab)
qed

theorem roundtrip_without_thousands_separator_witness:
  "formatar_valor_brl (fmt_2f (to_float ''1234,56'')) = ''1.234,56''
   \<and> formatar_valor_brl (fmt_2f (to_float '' -1234,5 '')) = ''-1.234,50''
   \<and> formatar_valor_brl (fmt_2f (to_float ''+007'')) = ''7,00''
   \<and> formatar_valor_brl (fmt_2f (to_float ''-0,00'')) = ''-0,00''"
proof -
  have sp: "list_all is_space []" "list_all is_space '' ''" by (simp_all add: is_space_def)
  have dg: "list_all is_digit ''1234''" "list_all is_digit ''007''" "list_all is_digit ''0''"
    "list_all is_digit ''56''" "list_all is_digit ''5''" "list_all is_digit ''00''" "list_all is_digit []"
    by (simp_all add: is_digit_def)
  have c1: "ptbr_canonico ''1234'' (''56'' @ replicate (2 - length ''56'') (CHR ''0'')) = ''1.234,56''"
    by code_simp
  have c2: "ptbr_canonico ''1234'' (''5'' @ replicate (2 - length ''5'') (CHR ''0'')) = ''1.234,50''"
    by code_simp
  have c3: "ptbr_canonico ''007'' ([] @ replicate (2 - length ([] :: string)) (CHR ''0'')) = ''7,00''"
    by code_simp
  have c4: "ptbr_canonico ''0'' (''00'' @ replicate (2 - length ''00'') (CHR ''0'')) = ''0,00''"
    by code_simp
  from roundtrip_without_thousands_separator
         [where esq = "[]" and dir = "[]" and sinal = "[]" and ds = "''1234''" and fs = "''56''",
          OF sp(1) sp(1) _ _ dg(1) _ dg(4)]
  have r1: "formatar_valor_brl (fmt_2f (to_float ''1234,56'')) = ''1.234,56''"
    unfolding c1 by simp
  from roundtrip_without_thousands_separator
         [where esq = "'' ''" and dir = "'' ''" and sinal = "''-''" and ds = "''1234''" and fs = "''5''",
          OF sp(2) sp(2) _ _ dg(1) _ dg(5)]
  have r2: "formatar_valor_brl (fmt_2f (to_float '' -1234,5 '')) = ''-1.234,50''"
    unfolding c2 by simp
  from roundtrip_without_thousands_separator
         [where esq = "[]" and dir = "[]" and sinal = "''+''" and ds = "''007''" and fs = "[]",
          OF sp(1) sp(1) _ _ dg(2) _ dg(7)]
  have r3: "formatar_valor_brl (fmt_2f (to_float ''+007'')) = ''7,00''"
    unfolding c3 by simp
  from roundtrip_without_thousands_separator
         [where esq = "[]" and dir = "[]" and sinal = "''-''" and ds = "''0''" and fs = "''00''",
          OF sp(1) sp(1) _ _ dg(3) _ dg(6)]
  have r4: "formatar_valor_brl (fmt_2f (to_float ''-0,00'')) = ''-0,00''"
    unfolding c4 by simp
  from r1 r2 r3 r4 show ?thesis by simp
qed

section \<open>Further properties\<close>

lemma split_from_nonempty: "split_from sep cur s \<noteq> []"
  by (induction s arbitrary: cur) auto

lemma join_Cons: "ys \<noteq> [] \<Longrightarrow> join sep (x # ys) = x @ sep # join sep ys"
  by (cases ys) simp_all

lemma split_from_props:
  "join sep (split_from sep cur s) = rev cur @ s
   \<and> length (split_from sep cur s) = Suc (count_list s sep)
   \<and> (sep \<notin> set cur \<longrightarrow> (\<forall>seg \<in> set (split_from sep cur s). sep \<notin> set seg))"
proof (induction s arbitrary: cur)
  case Nil
  then show ?case by simp
next
  case (Cons c s)
  show ?case
  proof (cases "c = sep")
    case True
    with Cons[of "[]"] show ?thesis by (simp add: join_Cons split_from_nonempty)
  next
    case False
    with Cons[of "c # cur"] show ?thesis by auto
  qed
qed

text \<open>
  The segments of a text: joining them with the separator gives the text back, there is
  one segment more than there are separators in the text, and no segment holds the
  separator.
\<close>

theorem split_segments:
  "join sep (split s sep) = s
   \<and> length (split s sep) = Suc (count_list s sep)
   \<and> (\<forall>seg \<in> set (split s sep). sep \<notin> set seg)"
  using split_from_props[of sep "[]" s] by (simp add: split_def)

theorem split_segments_witness:
  "join (CHR 0x0A) (split (''A'' @ [CHR 0x0A] @ ''B'') (CHR 0x0A)) = ''A'' @ [CHR 0x0A] @ ''B''
   \<and> length (split (''A'' @ [CHR 0x0A] @ ''B'') (CHR 0x0A)) = 2
   \<and> split [] (CHR 0x0A) = [[]]"
proof -
  have c: "Suc (count_list (''A'' @ [CHR 0x0A] @ ''B'') (CHR 0x0A)) = 2" by simp
  have e: "split [] (CHR 0x0A) = [[]]" by (simp add: split_def)
  from split_segments[of "CHR 0x0A" "''A'' @ [CHR 0x0A] @ ''B''"] c e show ?thesis by simp
qed

text \<open>
  A table whose header row is found and that has fewer than six columns is skipped: it
  adds no item and raises nothing. In a table of six columns the cells of an expanded row
  are taken by position: the first is the description, the third the code and the sixth
  the total.
\<close>

theorem processar_tabela_column_count:
  "(list_ex tem_cabecalho g \<and> shape1 g < 6 \<longrightarrow>
      processar_tabela pages \<lparr>table_df = g, table_page = p\<rparr> dados = Inr dados)
   \<and> linha_dados d [descr, pvd, cod, bas, vunit, tot]
       = \<lparr>COD = cod, DESCRICAO = descr, DESCONTOS = tot, DATA = d\<rparr>"
  by (simp add: processar_tabela_def linha_dados_def)

theorem processar_tabela_column_count_witness:
  "processar_tabela [Some ''Folha 03/2021'']
      \<lparr>table_df = [[marcador_cabecalho, ''PVD'', ''COD'', ''BASE'', ''TOTAL''],
                    [''EMPRESTIMO'', ''D'', ''101'', [], ''10,00'']],
       table_page = 1\<rparr> [] = Inr []"
proof -
  let ?g = "[[marcador_cabecalho, ''PVD'', ''COD'', ''BASE'', ''TOTAL''],
                    [''EMPRESTIMO'', ''D'', ''101'', [], ''10,00'']]"
  have h: "list_ex tem_cabecalho ?g \<and> shape1 ?g < 6" by (simp add: tem_cabecalho_def shape1_def)
  from processar_tabela_column_count[of ?g "[Some ''Folha 03/2021'']" 1 "[]"] h
  show ?thesis by blast
qed

text \<open>
  The values are doubles: \<open>2,675\<close> is read as the double just below 2.675 and printed as
  \<open>2.67\<close>; in \<open>formatar_valor_brl\<close> the text \<open>5e-1\<close> gives 0.005, a double just above
  that decimal, printed as \<open>0,01\<close>, and a negative zero keeps its sign. \<open>float\<close> refuses
  the separator 28 that \<open>strip\<close> removes, and drops the Latin-1 spaces itself.
\<close>

lemma fmt_2f_binary_rounding:
  "fmt_2f (to_float ''2,675'') = ''2.67''
   \<and> formatar_valor_brl ''5e-1'' = ''0,01''
   \<and> formatar_valor_brl ''-0'' = ''-0,00''"
  by code_simp

lemma py_float_separators:
  "py_float [char_of (28 :: nat), CHR ''1''] = None
   \<and> to_float [char_of (28 :: nat), CHR ''1''] = Finite 1
   \<and> py_float [char_of (160 :: nat), CHR ''1'', char_of (133 :: nat)] = Some (Finite 1)"
  by code_simp

text \<open>
  Out of the range of the doubles: a value of \<open>2 ^ 1024\<close> or more becomes the infinity, and
  a value of at most \<open>2 ^ - 1075\<close>, half the smallest subnormal double, becomes zero.
\<close>

lemma round_pos_overflow:
  assumes "2 ^ 1024 \<le> q"
  shows "round_pos q = PosInf"
proof -
  have q: "0 < q" using assms by (rule less_le_trans[rotated]) simp
  have "1024 \<le> expoente q"
  proof (rule ccontr)
    assume "\<not> 1024 \<le> expoente q"
    then have "expoente q + 1 \<le> 1024" by simp
    then have "(2::rat) powi (expoente q + 1) \<le> 2 powi 1024"
      by (intro power_int_increasing) simp_all
    with expoente_bounds[OF q] assms show False by simp
  qed
  then show ?thesis by (simp add: round_pos_def Let_def)
qed

lemma round_half_even_small:
  assumes "0 \<le> y" and "y \<le> 1 / 2"
  shows "round_half_even y = 0"
proof -
  from assms have fl: "\<lfloor>y\<rfloor> = 0" by (intro floor_unique) simp_all
  show ?thesis using assms(2) by (simp add: round_half_even_def Let_def fl)
qed

lemma round_pos_underflow:
  assumes "0 < q" and "q \<le> 2 powi (- 1075)"
  shows "round_pos q = Finite 0"
proof -
  define u :: rat where "u = 2 powi (- 1022 - 52)"
  have up: "0 < u" by (simp add: u_def del: power_int_numeral power_int_minus)
  have e: "expoente q \<le> - 1022"
  proof (rule ccontr)
    assume "\<not> expoente q \<le> - 1022"
    then have "- 1075 \<le> expoente q" by simp
    then have "(2::rat) powi (- 1075) \<le> 2 powi (expoente q)"
      by (intro power_int_increasing) simp_all
    moreover have "q < 2 powi (- 1075) \<or> q = 2 powi (- 1075)" using assms(2) by auto
    moreover have "(2::rat) powi (- 1075) < 2 powi (- 1021)"
      by (intro power_int_strict_increasing) simp_all
    moreover from \<open>\<not> expoente q \<le> - 1022\<close> have "(2::rat) powi (- 1021) \<le> 2 powi (expoente q)"
      by (intro power_int_increasing) simp_all
    ultimately show False using expoente_bounds[OF assms(1)] assms(2) by linarith
  qed
  then have mx: "max (expoente q) (- 1022) = - 1022" by simp
  have hu: "(2::rat) powi (- 1075) = u / 2"
  proof -
    have "(2::rat) powi (- 1075) = 2 powi (- 1022 - 52) * 2 powi (- 1)"
      by (subst power_int_add[symmetric]) simp_all
    then show ?thesis by (simp only: u_def) (simp only: power_int_minus power_int_1_right divide_inverse)
  qed
  from assms(2) have "q \<le> u / 2" by (simp only: hu)
  with up have h: "q / u \<le> 1 / 2" by (simp add: field_simps)
  have p: "0 \<le> q / u" using assms(1) up by simp
  show ?thesis
    unfolding round_pos_def Let_def mx u_def[symmetric] round_half_even_small[OF p h]
    by simp
qed

end
